theory Spec2Isabelle
  imports Main "HOL-Library.Word" "HOL-Library.Monad_Syntax"
begin

unbundle bit_operations_syntax

section \<open>Go values used by package sshminisig\<close>

text \<open>
  A Go \<open>[]byte\<close> is either \<open>nil\<close> or a (possibly empty) window of bytes; the package
  uses \<open>nil\<close> as its failure signal, so the two are kept apart. A Go \<open>string\<close> is a
  sequence of bytes and is modelled as \<open>string\<close> (a list of 8-bit \<open>char\<close>s); a byte
  taken out of a string (\<open>minisig[0]\<close>) and the prefix constants are \<open>char\<close>s.

  Every function that can hit a Go run-time panic (slice bounds out of range, index out
  of range) returns an \<open>option\<close>: \<open>None\<close> is the panic. Slicing is checked against the
  length, not the capacity: the model panics at least as often as the program does.
\<close>

type_synonym byte = "8 word"

datatype slice = NilSlice | Slice "byte list"

fun len :: "slice \<Rightarrow> nat" where
  "len NilSlice = 0"
| "len (Slice bs) = length bs"

fun bytes :: "slice \<Rightarrow> byte list" where
  "bytes NilSlice = []"
| "bytes (Slice bs) = bs"

text \<open>\<open>b[lo:]\<close> and \<open>b[:hi]\<close>; a slice of a non-nil slice is never nil.\<close>

definition slice_from :: "slice \<Rightarrow> nat \<Rightarrow> slice option" where
  "slice_from b lo =
     (if lo > len b then None
      else case b of NilSlice \<Rightarrow> Some NilSlice | Slice bs \<Rightarrow> Some (Slice (drop lo bs)))"

definition slice_to :: "slice \<Rightarrow> nat \<Rightarrow> slice option" where
  "slice_to b hi =
     (if hi > len b then None
      else case b of NilSlice \<Rightarrow> Some NilSlice | Slice bs \<Rightarrow> Some (Slice (take hi bs)))"

text \<open>\<open>string(b)\<close> for a byte slice: the same bytes.\<close>

definition go_string :: "slice \<Rightarrow> string" where
  "go_string b = map (\<lambda>w. char_of (unat w)) (bytes b)"

text \<open>
  \<open>string(prefix)\<close> for a single byte converts an integer to the UTF-8 encoding of that
  code point: one byte below 0x80, two bytes from 0x80 to 0xFF.
\<close>

definition string_of_byte :: "char \<Rightarrow> string" where
  "string_of_byte c =
     (let n = (of_char c :: nat) in
      if n < 128 then [c]
      else [char_of (192 + n div 64), char_of (128 + n mod 64)])"

text \<open>
  \<open>append(a, b...)\<close>: the elements of \<open>a\<close> followed by those of \<open>b\<close>. (In
  \<open>parseSignatureBlob\<close> the second slice starts where the first one ends in the same
  array, so the copy lands on the bytes it reads.)
\<close>

definition go_append :: "slice \<Rightarrow> slice \<Rightarrow> slice" where
  "go_append a b = (if a = NilSlice \<and> len b = 0 then NilSlice else Slice (bytes a @ bytes b))"

text \<open>\<open>binary.BigEndian.Uint32(b)\<close>; it indexes \<open>b[3]\<close> first and panics on a short slice.\<close>

definition be32 :: "byte list \<Rightarrow> 32 word" where
  "be32 bs = ucast (bs ! 3) OR push_bit 8 (ucast (bs ! 2)) OR
             push_bit 16 (ucast (bs ! 1)) OR push_bit 24 (ucast (bs ! 0))"

definition Uint32 :: "slice \<Rightarrow> 32 word option" where
  "Uint32 b = (if len b < 4 then None else Some (be32 (bytes b)))"

section \<open>Errors\<close>

text \<open>
  One constructor per error the package returns: \<open>errors.New\<close> / \<open>fmt.Errorf\<close> in
  \<open>Encode\<close>, \<open>parseSignatureBlob\<close> and \<open>Decode\<close>. \<open>DecodeFailed n\<close> wraps the base64
  decoder's \<open>CorruptInputError(n)\<close>.
\<close>

datatype error =
    TooLarge
  | InvalidArmor
  | InvalidMagic
  | InvalidVersion
  | Truncated
  | InvalidSigBlob
  | Unsupported string string
  | TooShort
  | UnknownPrefix char
  | DecodeFailed nat

section \<open>The algorithm registry\<close>

record Algs =
  Sig :: string
  Hash :: string

definition SigEd25519 :: string where "SigEd25519 = ''ssh-ed25519''"
definition SigRSA256 :: string where "SigRSA256 = ''rsa-sha2-256''"
definition SigRSA512 :: string where "SigRSA512 = ''rsa-sha2-512''"
definition SigECDSAP256 :: string where "SigECDSAP256 = ''ecdsa-sha2-nistp256''"
definition SigECDSAP384 :: string where "SigECDSAP384 = ''ecdsa-sha2-nistp384''"
definition SigECDSAP521 :: string where "SigECDSAP521 = ''ecdsa-sha2-nistp521''"
definition SigSKEd25519 :: string where "SigSKEd25519 = ''sk-ssh-ed25519@openssh.com''"
definition SigSKECDSA :: string where "SigSKECDSA = ''sk-ecdsa-sha2-nistp256@openssh.com''"
definition SigLegacyRSA :: string where "SigLegacyRSA = ''ssh-rsa''"

definition HashSHA256 :: string where "HashSHA256 = ''sha256''"
definition HashSHA512 :: string where "HashSHA512 = ''sha512''"

definition PrefixEd25519 :: char where "PrefixEd25519 = CHR ''e''"
definition PrefixRSA256 :: char where "PrefixRSA256 = CHR ''r''"
definition PrefixRSA512 :: char where "PrefixRSA512 = CHR ''s''"
definition PrefixECDSAP256 :: char where "PrefixECDSAP256 = CHR ''c''"
definition PrefixECDSAP384 :: char where "PrefixECDSAP384 = CHR ''d''"
definition PrefixECDSAP521 :: char where "PrefixECDSAP521 = CHR ''p''"
definition PrefixSKEd25519 :: char where "PrefixSKEd25519 = CHR ''f''"
definition PrefixSKECDSA :: char where "PrefixSKECDSA = CHR ''g''"
definition PrefixLegacyRSA256 :: char where "PrefixLegacyRSA256 = CHR ''2''"
definition PrefixLegacyRSA512 :: char where "PrefixLegacyRSA512 = CHR ''5''"
definition PrefixReserved :: char where "PrefixReserved = CHR ''z''"

text \<open>
  The map literal \<open>algsToPrefix\<close>, as the list of its entries; a lookup
  \<open>algsToPrefix[k]\<close> is \<open>map_of algsToPrefix k\<close>.
\<close>

definition algsToPrefix :: "(Algs \<times> char) list" where
  "algsToPrefix =
    [(\<lparr>Sig = SigEd25519, Hash = HashSHA512\<rparr>, PrefixEd25519),
     (\<lparr>Sig = SigRSA256, Hash = HashSHA256\<rparr>, PrefixRSA256),
     (\<lparr>Sig = SigRSA512, Hash = HashSHA512\<rparr>, PrefixRSA512),
     (\<lparr>Sig = SigECDSAP256, Hash = HashSHA512\<rparr>, PrefixECDSAP256),
     (\<lparr>Sig = SigECDSAP384, Hash = HashSHA512\<rparr>, PrefixECDSAP384),
     (\<lparr>Sig = SigECDSAP521, Hash = HashSHA512\<rparr>, PrefixECDSAP521),
     (\<lparr>Sig = SigSKEd25519, Hash = HashSHA512\<rparr>, PrefixSKEd25519),
     (\<lparr>Sig = SigSKECDSA, Hash = HashSHA256\<rparr>, PrefixSKECDSA),
     (\<lparr>Sig = SigLegacyRSA, Hash = HashSHA256\<rparr>, PrefixLegacyRSA256),
     (\<lparr>Sig = SigLegacyRSA, Hash = HashSHA512\<rparr>, PrefixLegacyRSA512)]"

text \<open>
  \<open>var PrefixToAlgs [256]Algs\<close>: an array indexed by a byte, zero-valued (both strings
  empty) until \<open>init\<close> stores every entry of \<open>algsToPrefix\<close> at its prefix. Go ranges
  over a map in no fixed order; \<open>init_from\<close> is the loop of \<open>init\<close> over the entries in
  the order of the list it is given, starting from the array it is given.
\<close>

definition zeroAlgs :: Algs where
  "zeroAlgs = \<lparr>Sig = [], Hash = []\<rparr>"

fun init_from :: "(Algs \<times> char) list \<Rightarrow> (char \<Rightarrow> Algs) \<Rightarrow> (char \<Rightarrow> Algs)" where
  "init_from [] arr = arr"
| "init_from ((algs, prefix) # entries) arr = init_from entries (arr(prefix := algs))"

definition PrefixToAlgs :: "char \<Rightarrow> Algs" where
  "PrefixToAlgs = init_from algsToPrefix (\<lambda>_. zeroAlgs)"

section \<open>The blob parser\<close>

text \<open>
  The conversion \<open>int(n)\<close> of a \<open>uint32\<close>. Go's \<open>int\<close> has 32 or 64 bits, by the
  platform the package is built for; the conversion keeps the low \<open>intSize\<close> bits and
  reads them as two's complement. With 64 bits it is the value of \<open>n\<close>; with 32 bits
  a value from \<open>2^31\<close> on becomes negative.
\<close>

definition int_of_uint32 :: "nat \<Rightarrow> 32 word \<Rightarrow> int" where
  "int_of_uint32 intSize n =
     (let v = uint n mod 2 ^ intSize
      in if v < 2 ^ (intSize - 1) then v else v - 2 ^ intSize)"

text \<open>
  \<open>readString\<close>: an SSH string is a big-endian \<open>uint32\<close> length and that many bytes.
  \<open>readStringOn intSize\<close> is the function on a build whose \<open>int\<close> has \<open>intSize\<close>
  bits: the guard compares \<open>len(b)\<close> with \<open>int(n)\<close>, the slice expressions
  \<open>b[:n]\<close> and \<open>b[n:]\<close> take the \<open>uint32\<close> itself.
\<close>

definition readStringOn :: "nat \<Rightarrow> slice \<Rightarrow> (slice \<times> slice) option" where
  "readStringOn intSize b =
     (if len b < 4 then Some (NilSlice, NilSlice)
      else do {
        n \<leftarrow> Uint32 b;
        b \<leftarrow> slice_from b 4;
        if int (len b) < int_of_uint32 intSize n then Some (NilSlice, NilSlice)
        else do {
          data \<leftarrow> slice_to b (unat n);
          rest \<leftarrow> slice_from b (unat n);
          Some (data, rest)
        }
      })"

text \<open>
  The parser and the codec below are those of a build with a 64-bit \<open>int\<close>, where
  \<open>readString\<close> is \<open>readStringOn 64\<close>.
\<close>

definition readString :: "slice \<Rightarrow> (slice \<times> slice) option" where
  "readString b = readStringOn 64 b"

text \<open>The loop \<open>for range 3 { _, b = readString(b) }\<close>, for any number of rounds.\<close>

fun skipStrings :: "nat \<Rightarrow> slice \<Rightarrow> slice option" where
  "skipStrings 0 b = Some b"
| "skipStrings (Suc k) b = do { (_, b') \<leftarrow> readString b; skipStrings k b' }"

definition parseSignatureBlob :: "slice \<Rightarrow> (error + string \<times> string \<times> slice) option" where
  "parseSignatureBlob blob =
     (let b = blob in
      if len b < 6 then Some (Inl InvalidMagic)
      else do {
        magic \<leftarrow> slice_to b 6;
        if go_string magic \<noteq> ''SSHSIG'' then Some (Inl InvalidMagic)
        else do {
          b \<leftarrow> slice_from b 6;
          if len b < 4 then Some (Inl InvalidVersion)
          else do {
            v \<leftarrow> slice_to b 4;
            version \<leftarrow> Uint32 v;
            if version \<noteq> 1 then Some (Inl InvalidVersion)
            else do {
              b \<leftarrow> slice_from b 4;
              b \<leftarrow> skipStrings 3 b;
              if b = NilSlice then Some (Inl Truncated)
              else do {
                (hashAlg, b) \<leftarrow> readString b;
                (sigBlob, _) \<leftarrow> readString b;
                if sigBlob = NilSlice then Some (Inl InvalidSigBlob)
                else do {
                  (sigAlg, sigBlob) \<leftarrow> readString sigBlob;
                  (sigData, sigBlob) \<leftarrow> readString sigBlob;
                  if sigData = NilSlice then Some (Inl InvalidSigBlob)
                  else
                    let sigData = (if len sigBlob > 0 then go_append sigData sigBlob
                                   else sigData)
                    in Some (Inr (go_string sigAlg, go_string hashAlg, sigData))
                }
              }
            }
          }
        }
      })"

section \<open>Unpadded URL-safe base64 (Go's \<open>base64.RawURLEncoding\<close>)\<close>

text \<open>
  The standard library's \<open>encoding/base64\<close> with the URL alphabet, no padding character
  and \<open>strict\<close> off. \<open>uint\<close> is 64 bits wide.
\<close>

definition encodeURL :: string where
  "encodeURL = ''ABCDEFGHIJKLMNOPQRSTUVWXYZabcdefghijklmnopqrstuvwxyz0123456789-_''"

definition enc :: "64 word \<Rightarrow> char" where
  "enc v = encodeURL ! unat v"

text \<open>
  \<open>EncodeToString\<close>: three bytes become four characters; a tail of one or two bytes
  becomes two or three characters, with nothing appended.
\<close>

fun EncodeToString :: "byte list \<Rightarrow> string" where
  "EncodeToString [] = []"
| "EncodeToString [b0] =
     (let val = (push_bit 16 (ucast b0) :: 64 word)
      in [enc (drop_bit 18 val AND 0x3F), enc (drop_bit 12 val AND 0x3F)])"
| "EncodeToString [b0, b1] =
     (let val = (push_bit 16 (ucast b0) OR push_bit 8 (ucast b1) :: 64 word)
      in [enc (drop_bit 18 val AND 0x3F), enc (drop_bit 12 val AND 0x3F),
          enc (drop_bit 6 val AND 0x3F)])"
| "EncodeToString (b0 # b1 # b2 # rest) =
     (let val = (push_bit 16 (ucast b0) OR push_bit 8 (ucast b1) OR ucast b2 :: 64 word)
      in [enc (drop_bit 18 val AND 0x3F), enc (drop_bit 12 val AND 0x3F),
          enc (drop_bit 6 val AND 0x3F), enc (val AND 0x3F)] @ EncodeToString rest)"

text \<open>
  \<open>decodeMap\<close>: 0xFF everywhere, then the index of each alphabet character at that
  character, as \<open>NewEncoding\<close> fills it.
\<close>

definition decodeMap :: "char \<Rightarrow> byte" where
  "decodeMap = foldl (\<lambda>m i. m(encodeURL ! i := of_nat i)) (\<lambda>_. 0xFF) [0..<64]"

text \<open>
  The end of \<open>decodeQuantum\<close>: the collected 6-bit values (\<open>dlen\<close> of them, the missing
  ones zero) are packed into 24 bits and the first \<open>dlen - 1\<close> bytes are written.
\<close>

definition quantumBytes :: "byte list \<Rightarrow> byte list" where
  "quantumBytes dbuf =
     (let d = dbuf @ replicate (4 - length dbuf) 0;
          val = (push_bit 18 (ucast (d ! 0)) OR push_bit 12 (ucast (d ! 1)) OR
                 push_bit 6 (ucast (d ! 2)) OR ucast (d ! 3) :: 64 word)
      in take (length dbuf - 1) [ucast (drop_bit 16 val), ucast (drop_bit 8 val), ucast val])"

text \<open>
  \<open>decodeQuantum\<close>, the loop \<open>for j := 0; j < 4; j++\<close>: \<open>dbuf\<close> holds the \<open>j\<close> values
  read so far, \<open>si\<close> is the offset into the source and the last argument is the source
  from \<open>si\<close> on. It returns the new offset, the unread source and the error or the
  decoded bytes. A \<open>\n\<close> or \<open>\r\<close> is skipped (\<open>j--; continue\<close>); with no padding
  character any other byte outside the alphabet is \<open>CorruptInputError(si - 1)\<close> after
  \<open>si++\<close>; at the end of the source \<open>j = 0\<close> is success with no bytes and \<open>j = 1\<close> is
  \<open>CorruptInputError(si - j)\<close>. A \<open>CorruptInputError\<close> is the offset of the offending
  byte.
\<close>

type_synonym CorruptInputError = nat

fun decodeQuantum :: "byte list \<Rightarrow> nat \<Rightarrow> string \<Rightarrow> nat \<times> string \<times> (CorruptInputError + byte list)" where
  "decodeQuantum dbuf si [] =
     (if length dbuf = 0 then (si, [], Inr [])
      else if length dbuf = 1 then (si, [], Inl (si - length dbuf))
      else (si, [], Inr (quantumBytes dbuf)))"
| "decodeQuantum dbuf si (c # cs) =
     (if length dbuf \<ge> 4 then (si, c # cs, Inr (quantumBytes dbuf))
      else
        let out = decodeMap c in
        if out \<noteq> 0xFF then decodeQuantum (dbuf @ [out]) (si + 1) cs
        else if c = CHR 0x0A \<or> c = CHR 0x0D then decodeQuantum dbuf (si + 1) cs
        else (si + 1, cs, Inl si))"

lemma decodeQuantum_rest_le:
  "decodeQuantum dbuf si src = (nsi, rest, r) \<Longrightarrow> length rest \<le> length src"
  by (induction dbuf si src rule: decodeQuantum.induct)
     (auto simp: Let_def split: if_splits)

lemma decodeQuantum_rest_less:
  "(nsi, rest, r) = decodeQuantum [] si (c # cs) \<Longrightarrow> length rest < Suc (length cs)"
proof -
  assume a: "(nsi, rest, r) = decodeQuantum [] si (c # cs)"
  have le: "\<And>d k. decodeQuantum d k cs = (nsi, rest, r) \<Longrightarrow> length rest \<le> length cs"
    by (rule decodeQuantum_rest_le)
  from a [symmetric] show ?thesis
    by (auto simp: Let_def split: if_splits dest: le)
qed

text \<open>
  \<open>Decode\<close> of the encoding: quanta are decoded while source is left, and the first
  error ends it. (The 8- and 4-character fast paths of the library decode the same
  quanta and fall back to \<open>decodeQuantum\<close> at the same offset.) The caller in this
  package drops the partial output that comes with an error.
\<close>

function base64Decode :: "nat \<Rightarrow> string \<Rightarrow> CorruptInputError + byte list" where
  "base64Decode si [] = Inr []"
| "base64Decode si (c # cs) =
     (case decodeQuantum [] si (c # cs) of
        (nsi, rest, Inl e) \<Rightarrow> Inl e
      | (nsi, rest, Inr out) \<Rightarrow>
          (case base64Decode nsi rest of
             Inl e \<Rightarrow> Inl e
           | Inr later \<Rightarrow> Inr (out @ later)))"
  by pat_completeness auto
termination
  by (relation "measure (\<lambda>(si, src). length src)")
     (auto simp del: decodeQuantum.simps dest: decodeQuantum_rest_less)

definition DecodeString :: "string \<Rightarrow> CorruptInputError + byte list" where
  "DecodeString s = base64Decode 0 s"

section \<open>The codec\<close>

definition maxArmoredSize :: nat where
  "maxArmoredSize = 8 * 1024"

text \<open>
  \<open>pem.Decode\<close> is not part of the package: \<open>Encode\<close> takes it as the parameter
  \<open>pemDecode\<close>, which returns no block (\<open>None\<close>) or the block's type and bytes.
\<close>

record Block =
  Type :: string
  Bytes :: slice

definition Encode :: "(slice \<Rightarrow> Block option) \<Rightarrow> slice \<Rightarrow> (error + string) option" where
  "Encode pemDecode armored =
     (if len armored > maxArmoredSize then Some (Inl TooLarge)
      else case pemDecode armored of
        None \<Rightarrow> Some (Inl InvalidArmor)
      | Some block \<Rightarrow>
          if Type block \<noteq> ''SSH SIGNATURE'' then Some (Inl InvalidArmor)
          else do {
            parsed \<leftarrow> parseSignatureBlob (Bytes block);
            case parsed of
              Inl err \<Rightarrow> Some (Inl err)
            | Inr (sigAlg, hashAlg, sigData) \<Rightarrow>
                (case map_of algsToPrefix \<lparr>Sig = sigAlg, Hash = hashAlg\<rparr> of
                   None \<Rightarrow> Some (Inl (Unsupported sigAlg hashAlg))
                 | Some prefix \<Rightarrow>
                     Some (Inr (string_of_byte prefix @ EncodeToString (bytes sigData))))
          })"

text \<open>
  \<open>Decode\<close>: \<open>minisig[0]\<close> and \<open>minisig[1:]\<close> panic on an empty string; the length
  check comes first.
\<close>

definition Decode :: "string \<Rightarrow> (error + Algs \<times> byte list) option" where
  "Decode minisig =
     (if length minisig < 2 then Some (Inl TooShort)
      else case minisig of
        [] \<Rightarrow> None
      | c # payload \<Rightarrow>
          let algs = PrefixToAlgs c in
          if Sig algs = [] then Some (Inl (UnknownPrefix c))
          else case DecodeString payload of
            Inl err \<Rightarrow> Some (Inl (DecodeFailed err))
          | Inr sigBytes \<Rightarrow> Some (Inr (algs, sigBytes)))"

section \<open>The wire layout of an SSH signature\<close>

text \<open>
  The writer that \<open>readString\<close> and \<open>parseSignatureBlob\<close> invert; the package itself only
  reads. \<open>PutUint32\<close> is \<open>binary.BigEndian.PutUint32\<close>, \<open>sshString\<close> a length-prefixed
  string, \<open>bytes_of\<close> the bytes of a string (\<open>[]byte(s)\<close>) and \<open>sshsigBlob\<close> the payload
  of the armor: magic, version 1, public key, namespace, reserved, hash algorithm and
  signature blob. These state which inputs a property is about.
\<close>

definition PutUint32 :: "32 word \<Rightarrow> byte list" where
  "PutUint32 v = [ucast (drop_bit 24 v), ucast (drop_bit 16 v), ucast (drop_bit 8 v), ucast v]"

definition sshString :: "byte list \<Rightarrow> byte list" where
  "sshString d = PutUint32 (of_nat (length d)) @ d"

definition bytes_of :: "string \<Rightarrow> byte list" where
  "bytes_of s = map of_char s"

definition sshsigBlob ::
  "byte list \<Rightarrow> byte list \<Rightarrow> byte list \<Rightarrow> byte list \<Rightarrow> byte list \<Rightarrow> byte list" where
  "sshsigBlob publickey namespace reserved hashAlg sigBlob =
     bytes_of ''SSHSIG'' @ PutUint32 1 @ sshString publickey @ sshString namespace @
     sshString reserved @ sshString hashAlg @ sshString sigBlob"


text \<open>
  \<open>parseSignatureBlob\<close> from the loop over the three skipped fields on
  (\<open>parseFields\<close>) and from the signature blob on (\<open>parseSig\<close>), as functions of their
  own; \<open>parse_unfold\<close> below shows that the parser is the header check followed by them.
\<close>

definition parseSig :: "slice \<Rightarrow> slice \<Rightarrow> (error + string \<times> string \<times> slice) option" where
  "parseSig hashAlg sigBlob0 =
     do {
       (sigAlg, sigBlob) \<leftarrow> readString sigBlob0;
       (sigData, sigBlob) \<leftarrow> readString sigBlob;
       if sigData = NilSlice then Some (Inl InvalidSigBlob)
       else
         let sigData = (if len sigBlob > 0 then go_append sigData sigBlob else sigData)
         in Some (Inr (go_string sigAlg, go_string hashAlg, sigData))
     }"

definition parseFields :: "slice \<Rightarrow> (error + string \<times> string \<times> slice) option" where
  "parseFields b0 =
     do {
       b \<leftarrow> skipStrings 3 b0;
       if b = NilSlice then Some (Inl Truncated)
       else do {
         (hashAlg, b) \<leftarrow> readString b;
         (sigBlob, _) \<leftarrow> readString b;
         if sigBlob = NilSlice then Some (Inl InvalidSigBlob)
         else parseSig hashAlg sigBlob
       }
     }"


text \<open>
  Two buffers that start with \<open>n\<close> length-prefixed fields and differ at most in the data
  bytes of these fields: same length, same length fields, and the same bytes after the
  last of the \<open>n\<close> fields. A field cut short by the end of the buffer has all remaining
  bytes as its data; a buffer too short for a length field admits no change.
\<close>

fun sameExceptData :: "nat \<Rightarrow> byte list \<Rightarrow> byte list \<Rightarrow> bool" where
  "sameExceptData 0 b b' = (b = b')"
| "sameExceptData (Suc n) b b' =
     (if length b < 4 then b = b'
      else length b = length b' \<and> take 4 b = take 4 b' \<and>
           sameExceptData n (drop (4 + unat (be32 b)) b) (drop (4 + unat (be32 b)) b'))"


section \<open>The length-prefixed read\<close>

text \<open>With a 64-bit \<open>int\<close> the conversion \<open>int(n)\<close> is the value of \<open>n\<close>.\<close>

lemma uint32_range: "0 \<le> uint (n :: 32 word) \<and> uint n < 4294967296"
  using uint_bounded [of n] by simp

lemma int_of_uint32_64: "(int k < int_of_uint32 64 n) = (k < unat n)"
proof -
  from uint32_range [of n] have "uint n mod 2 ^ 64 = uint n" by simp
  moreover from uint32_range [of n] have "uint n < 2 ^ (64 - 1)" by simp
  ultimately have "int_of_uint32 64 n = uint n"
    by (simp only: int_of_uint32_def Let_def if_True)
  then have "int_of_uint32 64 n = int (unat n)" by simp
  then show ?thesis by (simp only: of_nat_less_iff)
qed

text \<open>With a 32-bit \<open>int\<close> it is negative from \<open>2^31\<close> on, and the value of \<open>n\<close> below.\<close>

lemma int_of_uint32_32_neg: "2 ^ 31 \<le> unat n \<Longrightarrow> int_of_uint32 32 n < 0"
proof -
  assume "2 ^ 31 \<le> unat n"
  then have "int (2 ^ 31) \<le> int (unat n)" by (simp only: of_nat_le_iff)
  then have big: "2147483648 \<le> uint n" by simp
  from uint32_range [of n] have m: "uint n mod 2 ^ 32 = uint n" by simp
  from big have "\<not> uint n < 2 ^ (32 - 1)" by simp
  with m have "int_of_uint32 32 n = uint n - 2 ^ 32"
    by (simp only: int_of_uint32_def Let_def if_False)
  with uint32_range [of n] show ?thesis by simp
qed

lemma int_of_uint32_32_small:
  "unat n < 2 ^ 31 \<Longrightarrow> (int k < int_of_uint32 32 n) = (k < unat n)"
proof -
  assume "unat n < 2 ^ 31"
  then have "int (unat n) < int (2 ^ 31)" by (simp only: of_nat_less_iff)
  then have small: "uint n < 2 ^ (32 - 1)" by simp
  from uint32_range [of n] have m: "uint n mod 2 ^ 32 = uint n" by simp
  from m small have "int_of_uint32 32 n = uint n"
    by (simp only: int_of_uint32_def Let_def if_True)
  then have "int_of_uint32 32 n = int (unat n)" by simp
  then show ?thesis by (simp only: of_nat_less_iff)
qed

text \<open>
  \<open>readString\<close> on a 64-bit build without the panic layer: no slice expression in it
  goes out of range.
\<close>

lemma readString_Nil: "readString NilSlice = Some (NilSlice, NilSlice)"
  by (simp add: readString_def readStringOn_def)

lemma readString_Slice:
  "readString (Slice bs) =
     Some (if length bs < 4 \<or> length bs - 4 < unat (be32 bs) then (NilSlice, NilSlice)
           else (Slice (take (unat (be32 bs)) (drop 4 bs)),
                 Slice (drop (unat (be32 bs)) (drop 4 bs))))"
  by (simp add: readString_def readStringOn_def int_of_uint32_64 Uint32_def slice_from_def
        slice_to_def)

text \<open>
  On a 32-bit build \<open>readString\<close> does the same while the length field is below
  \<open>2^31\<close>. From \<open>2^31\<close> on the guard \<open>len(b) < int(n)\<close> compares with a negative number
  and does not fire, and \<open>b[:n]\<close> panics on every buffer such a build can hold (fewer
  than \<open>2^31\<close> bytes).
\<close>

lemma readStringOn_short:
  "length bs < 4 \<Longrightarrow> readStringOn intSize (Slice bs) = Some (NilSlice, NilSlice)"
  by (simp add: readStringOn_def)

lemma readStringOn_Slice:
  assumes "4 \<le> length bs"
    and "(int (length bs - 4) < int_of_uint32 intSize (be32 bs)) = g"
  shows "readStringOn intSize (Slice bs) =
           (if g then Some (NilSlice, NilSlice)
            else if length bs - 4 < unat (be32 bs) then None
            else Some (Slice (take (unat (be32 bs)) (drop 4 bs)),
                       Slice (drop (unat (be32 bs)) (drop 4 bs))))"
proof -
  have u: "Uint32 (Slice bs) = Some (be32 bs)"
    using assms(1) by (simp add: Uint32_def)
  have f: "slice_from (Slice bs) 4 = Some (Slice (drop 4 bs))"
    using assms(1) by (simp add: slice_from_def)
  have l: "len (Slice (drop 4 bs)) = length bs - 4" by simp
  have n: "\<not> len (Slice bs) < 4" using assms(1) by simp
  have "readStringOn intSize (Slice bs) =
          (if g then Some (NilSlice, NilSlice)
           else do {
             data \<leftarrow> slice_to (Slice (drop 4 bs)) (unat (be32 bs));
             rest \<leftarrow> slice_from (Slice (drop 4 bs)) (unat (be32 bs));
             Some (data, rest)
           })"
    by (simp only: readStringOn_def n if_False u f Option.bind.bind_lunit l assms(2))
  then show ?thesis
    by (simp add: slice_to_def slice_from_def del: drop_drop)
qed

lemma readStringOn_32_small:
  assumes "unat (be32 bs) < 2 ^ 31"
  shows "readStringOn 32 (Slice bs) = readString (Slice bs)"
proof (cases "length bs < 4")
  case True
  then show ?thesis by (simp add: readStringOn_short readString_Slice)
next
  case False
  then have l: "4 \<le> length bs" by simp
  from readStringOn_Slice [OF l int_of_uint32_32_small [OF assms]] False
  show ?thesis by (simp add: readString_Slice)
qed

lemma readStringOn_32_panics:
  assumes "4 \<le> length bs" and "length bs < 2 ^ 31" and "2 ^ 31 \<le> unat (be32 bs)"
  shows "readStringOn 32 (Slice bs) = None"
proof -
  from assms(3) have "int_of_uint32 32 (be32 bs) < 0" by (rule int_of_uint32_32_neg)
  then have g: "(int (length bs - 4) < int_of_uint32 32 (be32 bs)) = False" by simp
  from assms(2,3) have "length bs - 4 < unat (be32 bs)" by simp
  with readStringOn_Slice [OF assms(1) g] show ?thesis by simp
qed

text \<open>
  On a 64-bit build \<open>readString\<close> is total and exact. For every buffer it returns (it
  never panics), and it returns either the failure pair \<open>(nil, nil)\<close>, exactly when fewer
  than 4 bytes are there or fewer than the declared \<open>n\<close> bytes follow the length field,
  or a non-nil data slice of exactly \<open>n\<close> bytes and the non-nil rest, with
  \<open>4 + len data + len rest = len b\<close>; the buffer is its length field, the data and the
  rest, in that order.
\<close>

lemma readString_total_exact:
  "\<exists>data rest. readString b = Some (data, rest) \<and>
     (if len b < 4 \<or> len b - 4 < unat (be32 (bytes b))
      then data = NilSlice \<and> rest = NilSlice
      else data \<noteq> NilSlice \<and> rest \<noteq> NilSlice \<and>
           len data = unat (be32 (bytes b)) \<and>
           4 + len data + len rest = len b \<and>
           bytes b = take 4 (bytes b) @ bytes data @ bytes rest)"
proof (cases b)
  case NilSlice
  then show ?thesis by (simp add: readString_Nil)
next
  case (Slice bs)
  show ?thesis
  proof (cases "length bs < 4 \<or> length bs - 4 < unat (be32 bs)")
    case True
    with Slice show ?thesis by (simp add: readString_Slice)
  next
    case False
    have "take 4 bs @ take (unat (be32 bs)) (drop 4 bs) @ drop (unat (be32 bs)) (drop 4 bs) = bs"
      by (simp only: append_take_drop_id)
    with False Slice show ?thesis
      by (auto simp add: readString_Slice simp del: drop_drop)
  qed
qed

text \<open>
  Claim C10 says that the length-prefixed read fails or returns exactly the declared
  bytes for every buffer and never panics. The code does so on a build with a 64-bit
  \<open>int\<close> only. On a build with a 32-bit \<open>int\<close> the four bytes \<open>80 00 00 00\<close> declare
  \<open>2^31\<close> bytes, \<open>int(n)\<close> is \<open>-2^31\<close>, the guard \<open>len(b) < int(n)\<close> does not fire and
  \<open>b[:n]\<close> panics. On a 64-bit build the read of these bytes fails with
  \<open>(nil, nil)\<close>; a complete string is split as declared on both builds.
\<close>

theorem readString_panics_with_32_bit_int:
  "readStringOn 32 (Slice [0x80, 0x00, 0x00, 0x00]) = None \<and>
   int_of_uint32 32 (be32 [0x80, 0x00, 0x00, 0x00]) = - 2147483648 \<and>
   readStringOn 64 (Slice [0x80, 0x00, 0x00, 0x00]) = Some (NilSlice, NilSlice) \<and>
   readStringOn 32 (Slice [0x00, 0x00, 0x00, 0x02, 0xAA, 0xBB, 0xCC]) =
     Some (Slice [0xAA, 0xBB], Slice [0xCC]) \<and>
   readStringOn 64 (Slice [0x00, 0x00, 0x00, 0x02, 0xAA, 0xBB, 0xCC]) =
     Some (Slice [0xAA, 0xBB], Slice [0xCC])"
proof -
  have big: "be32 [0x80, 0x00, 0x00, 0x00] = 0x80000000"
    by (simp add: be32_def)
  have two: "be32 [0x00, 0x00, 0x00, 0x02, 0xAA, 0xBB, 0xCC] = 2"
    by (simp add: be32_def)
  have 1: "readStringOn 32 (Slice [0x80, 0x00, 0x00, 0x00]) = None"
    by (rule readStringOn_32_panics) (simp_all add: big)
  have 2: "int_of_uint32 32 (be32 [0x80, 0x00, 0x00, 0x00]) = - 2147483648"
    by (simp add: big int_of_uint32_def)
  have 3: "readString (Slice [0x80, 0x00, 0x00, 0x00]) = Some (NilSlice, NilSlice)"
    by (simp add: readString_Slice big)
  have 5: "readString (Slice [0x00, 0x00, 0x00, 0x02, 0xAA, 0xBB, 0xCC]) =
             Some (Slice [0xAA, 0xBB], Slice [0xCC])"
    by (simp add: readString_Slice two)
  have 4: "readStringOn 32 (Slice [0x00, 0x00, 0x00, 0x02, 0xAA, 0xBB, 0xCC]) =
             Some (Slice [0xAA, 0xBB], Slice [0xCC])"
    by (simp add: readStringOn_32_small two 5)
  from 1 2 3 4 5 show ?thesis by (simp add: readString_def)
qed

section \<open>The registry\<close>

lemmas registry_defs =
  algsToPrefix_def SigEd25519_def SigRSA256_def SigRSA512_def SigECDSAP256_def
  SigECDSAP384_def SigECDSAP521_def SigSKEd25519_def SigSKECDSA_def SigLegacyRSA_def
  HashSHA256_def HashSHA512_def PrefixEd25519_def PrefixRSA256_def PrefixRSA512_def
  PrefixECDSAP256_def PrefixECDSAP384_def PrefixECDSAP521_def PrefixSKEd25519_def
  PrefixSKECDSA_def PrefixLegacyRSA256_def PrefixLegacyRSA512_def PrefixReserved_def

lemma init_from_notin:
  "c \<notin> snd ` set es \<Longrightarrow> init_from es arr c = arr c"
  by (induction es arr rule: init_from.induct) (auto simp: image_iff)

lemma init_from_in:
  "distinct (map snd es) \<Longrightarrow> (a, c) \<in> set es \<Longrightarrow> init_from es arr c = a"
  by (induction es arr rule: init_from.induct) (auto simp: image_iff init_from_notin)

lemma prefixes_distinct: "distinct (map snd algsToPrefix)"
  by (simp add: registry_defs)

lemma same_prefix_same_algs:
  "distinct (map snd es) \<Longrightarrow> (a, p) \<in> set es \<Longrightarrow> (b, p) \<in> set es \<Longrightarrow> a = b"
  by (induction es) (auto simp: image_iff)

text \<open>
  Go visits the entries of a map in an unspecified order; every order gives the same
  array, because no two entries share a prefix.
\<close>

lemma init_order_irrelevant:
  assumes "distinct es" and "set es = set algsToPrefix"
  shows "init_from es (\<lambda>_. zeroAlgs) = PrefixToAlgs"
proof
  fix c
  have inj: "inj_on snd (set algsToPrefix)"
    using prefixes_distinct same_prefix_same_algs [OF prefixes_distinct]
    by (auto simp: inj_on_def)
  have d: "distinct (map snd es)"
    using assms inj by (simp add: distinct_map)
  show "init_from es (\<lambda>_. zeroAlgs) c = PrefixToAlgs c"
  proof (cases "c \<in> snd ` set es")
    case True
    then obtain a where a: "(a, c) \<in> set es" by (auto simp: image_iff)
    with assms have "(a, c) \<in> set algsToPrefix" by simp
    with a d show ?thesis
      by (simp add: PrefixToAlgs_def init_from_in prefixes_distinct)
  next
    case False
    with assms show ?thesis
      by (simp add: PrefixToAlgs_def init_from_notin)
  qed
qed

text \<open>
  Claim C4. The reverse lookup is a total function of the byte (an array of 256 entries
  indexed by a byte): at the prefix of a table entry it returns that entry, at every
  byte that is no entry's prefix it returns the empty pair (both fields the empty
  string), so it always returns a table entry or the empty pair; the reserved byte
  \<open>z\<close> is no entry's prefix and yields the empty pair.
\<close>

theorem PrefixToAlgs_total:
  "((a, c) \<in> set algsToPrefix \<longrightarrow> PrefixToAlgs c = a) \<and>
   (c \<notin> snd ` set algsToPrefix \<longrightarrow> PrefixToAlgs c = \<lparr>Sig = [], Hash = []\<rparr>) \<and>
   (PrefixToAlgs c \<in> fst ` set algsToPrefix \<or> PrefixToAlgs c = \<lparr>Sig = [], Hash = []\<rparr>) \<and>
   PrefixReserved \<notin> snd ` set algsToPrefix \<and>
   PrefixToAlgs PrefixReserved = \<lparr>Sig = [], Hash = []\<rparr>"
proof -
  have in_tab: "\<And>a c. (a, c) \<in> set algsToPrefix \<Longrightarrow> PrefixToAlgs c = a"
    by (simp add: PrefixToAlgs_def init_from_in prefixes_distinct)
  have not_in: "\<And>c. c \<notin> snd ` set algsToPrefix \<Longrightarrow> PrefixToAlgs c = \<lparr>Sig = [], Hash = []\<rparr>"
    by (simp add: PrefixToAlgs_def init_from_notin zeroAlgs_def)
  have res: "PrefixReserved \<notin> snd ` set algsToPrefix"
    by (simp add: registry_defs)
  have "PrefixToAlgs c \<in> fst ` set algsToPrefix \<or> PrefixToAlgs c = \<lparr>Sig = [], Hash = []\<rparr>"
  proof (cases "c \<in> snd ` set algsToPrefix")
    case True
    then obtain a where a: "(a, c) \<in> set algsToPrefix" by (auto simp: image_iff)
    then have "PrefixToAlgs c = a" by (rule in_tab)
    with a show ?thesis by (force simp: image_iff)
  next
    case False
    then show ?thesis by (simp add: not_in)
  qed
  with in_tab not_in res show ?thesis by blast
qed

theorem PrefixToAlgs_total_witness:
  "PrefixToAlgs (CHR ''e'') = \<lparr>Sig = ''ssh-ed25519'', Hash = ''sha512''\<rparr> \<and>
   PrefixToAlgs (CHR ''x'') = \<lparr>Sig = [], Hash = []\<rparr> \<and>
   PrefixToAlgs (CHR ''z'') = \<lparr>Sig = [], Hash = []\<rparr>"
proof -
  have h1: "(\<lparr>Sig = ''ssh-ed25519'', Hash = ''sha512''\<rparr>, CHR ''e'') \<in> set algsToPrefix"
    by (simp add: registry_defs)
  have h2: "CHR ''x'' \<notin> snd ` set algsToPrefix"
    by (simp add: registry_defs)
  from h1 h2
    PrefixToAlgs_total [of "\<lparr>Sig = ''ssh-ed25519'', Hash = ''sha512''\<rparr>" "CHR ''e''"]
    PrefixToAlgs_total [of "\<lparr>Sig = ''ssh-ed25519'', Hash = ''sha512''\<rparr>" "CHR ''x''"]
  show ?thesis by (simp add: PrefixReserved_def)
qed

lemma table_sig_nonempty: "(a, c) \<in> set algsToPrefix \<Longrightarrow> Sig a \<noteq> []"
  by (auto simp: registry_defs)

lemma PrefixToAlgs_entry: "(a, c) \<in> set algsToPrefix \<Longrightarrow> PrefixToAlgs c = a"
  by (simp add: PrefixToAlgs_def init_from_in prefixes_distinct)

lemma Decode_known_prefix:
  assumes "(a, c) \<in> set algsToPrefix" and "payload \<noteq> []"
  shows "Decode (c # payload) =
           (case DecodeString payload of
              Inl err \<Rightarrow> Some (Inl (DecodeFailed err))
            | Inr sigBytes \<Rightarrow> Some (Inr (a, sigBytes)))"
proof -
  from assms(2) have l: "\<not> length (c # payload) < 2" by (cases payload) auto
  from assms(1) have "PrefixToAlgs c = a" "Sig a \<noteq> []"
    by (simp_all add: PrefixToAlgs_entry table_sig_nonempty)
  with l show ?thesis
    by (simp add: Decode_def split: sum.splits error.splits)
qed

lemma keys_distinct: "distinct (map fst algsToPrefix)"
  by (simp add: registry_defs)

text \<open>
  Claim C5. The forward mapping is injective: the prefixes of the table are pairwise
  distinct and the lookup is one-to-one on the table's keys. \<open>ssh-rsa\<close> with
  \<open>sha256\<close> maps to \<open>2\<close> and with \<open>sha512\<close> to \<open>5\<close>; the reverse lookup of each byte,
  and \<open>Decode\<close> of each byte followed by any payload that decodes, gives back the
  pair with the right hash.
\<close>

theorem algsToPrefix_injective:
  "distinct (map snd algsToPrefix) \<and>
   inj_on (map_of algsToPrefix) (fst ` set algsToPrefix) \<and>
   map_of algsToPrefix \<lparr>Sig = ''ssh-rsa'', Hash = ''sha256''\<rparr> = Some (CHR ''2'') \<and>
   map_of algsToPrefix \<lparr>Sig = ''ssh-rsa'', Hash = ''sha512''\<rparr> = Some (CHR ''5'') \<and>
   PrefixToAlgs (CHR ''2'') = \<lparr>Sig = ''ssh-rsa'', Hash = ''sha256''\<rparr> \<and>
   PrefixToAlgs (CHR ''5'') = \<lparr>Sig = ''ssh-rsa'', Hash = ''sha512''\<rparr> \<and>
   (\<forall>payload sigBytes. payload \<noteq> [] \<and> DecodeString payload = Inr sigBytes \<longrightarrow>
      Decode (CHR ''2'' # payload) =
        Some (Inr (\<lparr>Sig = ''ssh-rsa'', Hash = ''sha256''\<rparr>, sigBytes)) \<and>
      Decode (CHR ''5'' # payload) =
        Some (Inr (\<lparr>Sig = ''ssh-rsa'', Hash = ''sha512''\<rparr>, sigBytes)))"
proof -
  have inj: "inj_on (map_of algsToPrefix) (fst ` set algsToPrefix)"
  proof (rule inj_onI)
    fix a b
    assume a: "a \<in> fst ` set algsToPrefix" and b: "b \<in> fst ` set algsToPrefix"
      and eq: "map_of algsToPrefix a = map_of algsToPrefix b"
    from a obtain p where p: "map_of algsToPrefix a = Some p"
      by (cases "map_of algsToPrefix a") (auto simp: map_of_eq_None_iff)
    with eq have q: "map_of algsToPrefix b = Some p" by simp
    have "(a, p) \<in> set algsToPrefix" "(b, p) \<in> set algsToPrefix"
      by (rule map_of_SomeD [OF p], rule map_of_SomeD [OF q])
    then show "a = b" by (rule same_prefix_same_algs [OF prefixes_distinct])
  qed
  have m2: "(\<lparr>Sig = ''ssh-rsa'', Hash = ''sha256''\<rparr>, CHR ''2'') \<in> set algsToPrefix"
    and m5: "(\<lparr>Sig = ''ssh-rsa'', Hash = ''sha512''\<rparr>, CHR ''5'') \<in> set algsToPrefix"
    by (simp_all add: registry_defs)
  have l2: "map_of algsToPrefix \<lparr>Sig = ''ssh-rsa'', Hash = ''sha256''\<rparr> = Some (CHR ''2'')"
    and l5: "map_of algsToPrefix \<lparr>Sig = ''ssh-rsa'', Hash = ''sha512''\<rparr> = Some (CHR ''5'')"
    using m2 m5 keys_distinct by simp_all
  have dec: "\<And>payload sigBytes. payload \<noteq> [] \<Longrightarrow> DecodeString payload = Inr sigBytes \<Longrightarrow>
      Decode (CHR ''2'' # payload) =
        Some (Inr (\<lparr>Sig = ''ssh-rsa'', Hash = ''sha256''\<rparr>, sigBytes)) \<and>
      Decode (CHR ''5'' # payload) =
        Some (Inr (\<lparr>Sig = ''ssh-rsa'', Hash = ''sha512''\<rparr>, sigBytes))"
    by (simp add: Decode_known_prefix [OF m2] Decode_known_prefix [OF m5])
  show ?thesis
    using prefixes_distinct inj l2 l5 PrefixToAlgs_entry [OF m2] PrefixToAlgs_entry [OF m5] dec
    by blast
qed

lemma DecodeString_AQID: "DecodeString ''AQID'' = Inr [1, 2, 3]"
  by code_simp

theorem algsToPrefix_injective_witness:
  "Decode ''2AQID'' = Some (Inr (\<lparr>Sig = ''ssh-rsa'', Hash = ''sha256''\<rparr>, [1, 2, 3])) \<and>
   Decode ''5AQID'' = Some (Inr (\<lparr>Sig = ''ssh-rsa'', Hash = ''sha512''\<rparr>, [1, 2, 3]))"
proof -
  have h: "''AQID'' \<noteq> [] \<and> DecodeString ''AQID'' = Inr [1, 2, 3]"
    using DecodeString_AQID by simp
  from algsToPrefix_injective have
    "\<forall>payload sigBytes. payload \<noteq> [] \<and> DecodeString payload = Inr sigBytes \<longrightarrow>
      Decode (CHR ''2'' # payload) =
        Some (Inr (\<lparr>Sig = ''ssh-rsa'', Hash = ''sha256''\<rparr>, sigBytes)) \<and>
      Decode (CHR ''5'' # payload) =
        Some (Inr (\<lparr>Sig = ''ssh-rsa'', Hash = ''sha512''\<rparr>, sigBytes))"
    by blast
  with h show ?thesis by blast
qed

section \<open>Base64: decoding inverts encoding\<close>

lemma m6: "(0x3F :: 64 word) = mask 6" by (simp add: mask_eq_exp_minus_1)

lemma sextet_lt: "unat ((w :: 64 word) AND 0x3F) < 64"
proof -
  have "w AND mask 6 < 2 ^ 6" by (rule and_mask_less') simp
  then show ?thesis by (simp add: m6 word_less_nat_alt)
qed

lemma decodeMap_table: "list_all (\<lambda>i. decodeMap (encodeURL ! i) = of_nat i) [0..<64]"
  by code_simp

lemma decodeMap_enc:
  assumes "unat v < 64"
  shows "decodeMap (enc v) = ucast v"
proof -
  from assms decodeMap_table have "decodeMap (encodeURL ! unat v) = of_nat (unat v)"
    by (simp add: list_all_iff)
  then show ?thesis by (simp add: enc_def)
qed

lemma ucast_sextet_ne_ff: "unat (v :: 64 word) < 64 \<Longrightarrow> (ucast v :: byte) \<noteq> 0xFF"
proof
  assume a: "unat v < 64" and b: "(ucast v :: byte) = 0xFF"
  from b have "unat (ucast v :: byte) = 255" by simp
  moreover have "unat (ucast v :: byte) = unat v mod 256"
    by (simp add: unsigned_ucast_eq take_bit_eq_mod)
  ultimately show False using a by simp
qed

lemma byte_bit_lt: "bit (b :: byte) n \<Longrightarrow> n < 8"
  by (drule bit_imp_le_length) simp

lemma SucSuc_diff2: "2 \<le> n \<Longrightarrow> Suc (Suc (n - 2)) = n"
  by simp

lemma pack3:
  fixes b0 b1 b2 :: byte
  defines "val \<equiv> (push_bit 16 (ucast b0) OR push_bit 8 (ucast b1) OR ucast b2 :: 64 word)"
  shows "quantumBytes [ucast (drop_bit 18 val AND 0x3F), ucast (drop_bit 12 val AND 0x3F),
                       ucast (drop_bit 6 val AND 0x3F), ucast (val AND 0x3F)] = [b0, b1, b2]"
  unfolding quantumBytes_def val_def m6
  apply (simp add: Let_def)
  apply (intro conjI bit_word_eqI)
    apply (auto simp: bit_simps SucSuc_diff2 dest: byte_bit_lt)
  done

lemma pack2:
  fixes b0 b1 :: byte
  defines "val \<equiv> (push_bit 16 (ucast b0) OR push_bit 8 (ucast b1) :: 64 word)"
  shows "quantumBytes [ucast (drop_bit 18 val AND 0x3F), ucast (drop_bit 12 val AND 0x3F),
                       ucast (drop_bit 6 val AND 0x3F)] = [b0, b1]"
  unfolding quantumBytes_def val_def m6
  apply (simp add: Let_def)
  apply (intro conjI bit_word_eqI)
   apply (auto simp: bit_simps SucSuc_diff2 dest: byte_bit_lt)
  done

lemma pack1:
  fixes b0 :: byte
  defines "val \<equiv> (push_bit 16 (ucast b0) :: 64 word)"
  shows "quantumBytes [ucast (drop_bit 18 val AND 0x3F), ucast (drop_bit 12 val AND 0x3F)] = [b0]"
  unfolding quantumBytes_def val_def m6
  apply (simp add: Let_def)
  apply (intro conjI bit_word_eqI)
  apply (auto simp: bit_simps SucSuc_diff2 dest: byte_bit_lt)
  done

lemma decodeQuantum_full:
  "length dbuf = 4 \<Longrightarrow> decodeQuantum dbuf si rest = (si, rest, Inr (quantumBytes dbuf))"
  by (cases rest) auto

lemma decodeQuantum_sextet:
  assumes "unat v < 64" and "length dbuf < 4"
  shows "decodeQuantum dbuf si (enc v # cs) = decodeQuantum (dbuf @ [ucast v]) (Suc si) cs"
  using assms by (simp add: decodeMap_enc ucast_sextet_ne_ff)

lemma base64_roundtrip: "base64Decode si (EncodeToString bs) = Inr bs"
proof (induction bs arbitrary: si rule: EncodeToString.induct)
  case 1
  show ?case by simp
next
  case (2 b0)
  show ?case
    by (simp add: Let_def decodeQuantum_sextet sextet_lt pack1 del: decodeQuantum.simps)
       (simp add: pack1 [simplified])
next
  case (3 b0 b1)
  show ?case
    by (simp add: Let_def decodeQuantum_sextet sextet_lt del: decodeQuantum.simps)
       (simp add: pack2 [simplified])
next
  case (4 b0 b1 b2 rest)
  show ?case
    by (simp add: Let_def decodeQuantum_sextet sextet_lt decodeQuantum_full "4.IH"
          del: decodeQuantum.simps)
       (simp add: pack3 [simplified])
qed

section \<open>Reading what was written\<close>

lemma be32_PutUint32: "be32 (PutUint32 v @ rest) = v"
  unfolding be32_def PutUint32_def
  apply simp
  apply (rule bit_word_eqI)
  subgoal for n
    by (cases "n < 8"; cases "n < 16"; cases "n < 24")
       (auto simp: bit_simps le_add_diff_inverse dest: byte_bit_lt)
  done

lemma length_PutUint32: "length (PutUint32 v) = 4"
  by (simp add: PutUint32_def)

lemma be32_cong: "take 4 xs = take 4 ys \<Longrightarrow> 4 \<le> length xs \<Longrightarrow> be32 xs = be32 ys"
proof -
  assume a: "take 4 xs = take 4 ys" and l: "4 \<le> length xs"
  have x: "\<And>i. i < 4 \<Longrightarrow> xs ! i = take 4 xs ! i" by simp
  have y: "\<And>i. i < 4 \<Longrightarrow> ys ! i = take 4 ys ! i" by simp
  have "xs ! 0 = ys ! 0" "xs ! 1 = ys ! 1" "xs ! 2 = ys ! 2" "xs ! 3 = ys ! 3"
    using a by (simp_all only: x y)
  then show ?thesis by (simp only: be32_def)
qed

lemma be32_bytes:
  fixes a b c d :: byte
  defines "w \<equiv> (ucast d OR push_bit 8 (ucast c) OR push_bit 16 (ucast b) OR push_bit 24 (ucast a) :: 32 word)"
  shows "ucast (drop_bit 24 w) = a" "ucast (drop_bit 16 w) = b"
        "ucast (drop_bit 8 w) = c" "ucast w = d"
  unfolding w_def
  by (rule bit_word_eqI; auto simp: bit_simps dest: byte_bit_lt)+

lemma list4: "4 \<le> length bs \<Longrightarrow> \<exists>a b c d rest. bs = a # b # c # d # rest"
  by (cases bs; cases "tl bs"; cases "tl (tl bs)"; cases "tl (tl (tl bs))") auto

lemma PutUint32_be32: "4 \<le> length bs \<Longrightarrow> PutUint32 (be32 bs) = take 4 bs"
proof -
  assume l: "4 \<le> length bs"
  then obtain a b c d rest where bs: "bs = a # b # c # d # rest"
    using list4 by blast
  have e: "be32 bs = ucast d OR push_bit 8 (ucast c) OR push_bit 16 (ucast b) OR push_bit 24 (ucast a)"
    by (simp add: bs be32_def)
  have "PutUint32 (be32 bs) = [a, b, c, d]"
    unfolding e PutUint32_def by (simp only: be32_bytes)
  then show ?thesis by (simp add: bs)
qed

lemma char_of_byte_of_char: "char_of (unat (of_char c :: byte)) = c"
proof -
  have "unat (of_char c :: byte) = unat (of_nat (of_char c) :: byte)"
    by (simp only: of_nat_of_char)
  also have "\<dots> = of_char c"
    by (simp add: unat_of_nat take_bit_eq_mod)
  finally show ?thesis by simp
qed

lemma go_string_bytes_of: "go_string (Slice (bytes_of s)) = s"
  by (simp add: go_string_def bytes_of_def comp_def char_of_byte_of_char)

lemma length_sshString: "length (sshString d) = 4 + length d"
  by (simp add: sshString_def length_PutUint32)

lemma be32_sshString:
  "length d < 2 ^ 32 \<Longrightarrow> unat (be32 (sshString d @ rest)) = length d"
  by (simp add: sshString_def be32_PutUint32 unat_of_nat take_bit_eq_mod)

lemma drop4_sshString: "drop 4 (sshString d @ rest) = d @ rest"
  by (simp add: sshString_def length_PutUint32)

lemma readString_short:
  "length bs < 4 \<Longrightarrow> readString (Slice bs) = Some (NilSlice, NilSlice)"
  by (simp add: readString_Slice)

lemma readString_missing:
  "length bs - 4 < unat (be32 bs) \<Longrightarrow> readString (Slice bs) = Some (NilSlice, NilSlice)"
  by (simp add: readString_Slice)

lemma readString_present:
  assumes "4 \<le> length bs" and n: "unat (be32 bs) = length d" and dr: "drop 4 bs = d @ rest"
  shows "readString (Slice bs) = Some (Slice d, Slice rest)"
proof -
  have "length (drop 4 bs) = length d + length rest"
    by (simp only: dr length_append)
  then have l: "length bs - 4 = length d + length rest" by simp
  have t: "take (length d) (drop 4 bs) = d" and d: "drop (length d) (drop 4 bs) = rest"
    by (simp_all only: dr append_eq_conv_conj take_append drop_append) simp_all
  have c: "\<not> (length bs < 4 \<or> length bs - 4 < length d)"
    using assms(1) l by simp
  show ?thesis
    by (simp only: readString_Slice n t d c if_False)
qed

lemma readString_sshString:
  assumes "length d < 2 ^ 32"
  shows "readString (Slice (sshString d @ rest)) = Some (Slice d, Slice rest)"
proof (rule readString_present)
  show "4 \<le> length (sshString d @ rest)" by (simp add: length_sshString)
  show "unat (be32 (sshString d @ rest)) = length d" using assms by (rule be32_sshString)
  show "drop 4 (sshString d @ rest) = d @ rest" by (rule drop4_sshString)
qed

lemma take_sshString_ge:
  "4 + length d \<le> k \<Longrightarrow>
   take k (sshString d @ rest) = sshString d @ take (k - (4 + length d)) rest"
  by (simp add: length_sshString)

lemma readString_truncated:
  assumes "length d < 2 ^ 32" and "k < 4 + length d"
  shows "readString (Slice (take k (sshString d @ rest))) = Some (NilSlice, NilSlice)"
proof (cases "k < 4")
  case True
  then have "length (take k (sshString d @ rest)) < 4" by simp
  then show ?thesis by (rule readString_short)
next
  case False
  have "take 4 (take k (sshString d @ rest)) = take 4 (sshString d @ rest)"
    using False by (simp add: min_def)
  moreover have "4 \<le> length (take k (sshString d @ rest))"
    using False assms by (simp add: length_sshString)
  ultimately have "be32 (take k (sshString d @ rest)) = be32 (sshString d @ rest)"
    by (rule be32_cong)
  with assms have "unat (be32 (take k (sshString d @ rest))) = length d"
    by (simp add: be32_sshString)
  moreover have "length (take k (sshString d @ rest)) - 4 < length d"
    using assms False by (simp add: length_sshString)
  ultimately have "length (take k (sshString d @ rest)) - 4 < unat (be32 (take k (sshString d @ rest)))"
    by (simp only:)
  then show ?thesis by (rule readString_missing)
qed

lemma readString_ok_layout:
  assumes "readString (Slice bs) = Some (Slice d, r)"
  shows "\<exists>rest. r = Slice rest \<and> bs = sshString d @ rest \<and> length d < 2 ^ 32"
proof -
  let ?n = "unat (be32 bs)"
  from assms have ok: "\<not> (length bs < 4 \<or> length bs - 4 < ?n)"
    by (auto simp: readString_Slice split: if_splits)
  with assms have d: "d = take ?n (drop 4 bs)" and r: "r = Slice (drop ?n (drop 4 bs))"
    by (auto simp: readString_Slice simp del: drop_drop)
  from ok d have ld: "length d = ?n" by simp
  have "?n < 2 ^ 32" using unsigned_less [of "be32 bs"] by simp
  with ld have lt: "length d < 2 ^ 32" by simp
  have "of_nat (length d) = be32 bs" by (simp add: ld)
  then have "sshString d = take 4 bs @ d"
    using ok by (simp add: sshString_def PutUint32_be32)
  then have "sshString d @ drop ?n (drop 4 bs) = take 4 bs @ (take ?n (drop 4 bs) @ drop ?n (drop 4 bs))"
    by (simp add: d)
  also have "\<dots> = bs" by (simp only: append_take_drop_id)
  finally show ?thesis using r lt by simp
qed

section \<open>The parser on the wire layout\<close>

lemma parse_unfold:
  "parseSignatureBlob (Slice P) =
     (if length P < 6 then Some (Inl InvalidMagic)
      else if go_string (Slice (take 6 P)) \<noteq> ''SSHSIG'' then Some (Inl InvalidMagic)
      else if length P < 10 then Some (Inl InvalidVersion)
      else if be32 (drop 6 P) \<noteq> 1 then Some (Inl InvalidVersion)
      else parseFields (Slice (drop 10 P)))"
proof -
  have v: "be32 (take 4 (drop 6 P)) = be32 (drop 6 P)"
    by (simp add: be32_def)
  have l: "length P - 6 < 4 \<longleftrightarrow> length P < 10" by auto
  show ?thesis
    unfolding parseSignatureBlob_def parseFields_def parseSig_def
    by (simp add: slice_to_def slice_from_def Uint32_def Let_def v l min_def
             del: skipStrings.simps)
qed

lemma parse_Nil: "parseSignatureBlob NilSlice = Some (Inl InvalidMagic)"
  by (simp add: parseSignatureBlob_def)

lemma readString_cases:
  "readString b = Some (NilSlice, NilSlice) \<or> (\<exists>d r. readString b = Some (Slice d, Slice r))"
  by (cases b) (simp_all add: readString_Nil readString_Slice)

lemma skipStrings_Nil: "skipStrings n NilSlice = Some NilSlice"
  by (induction n) (simp_all add: readString_Nil)

lemma skipStrings_total: "\<exists>b'. skipStrings n b = Some b'"
proof (induction n arbitrary: b)
  case 0
  show ?case by simp
next
  case (Suc n)
  from readString_cases [of b] Suc show ?case by auto
qed

lemma skip_fields:
  "\<forall>d\<in>set fs. length d < 2 ^ 32 \<Longrightarrow>
   skipStrings (length fs) (Slice (concat (map sshString fs) @ rest)) = Some (Slice rest)"
  by (induction fs) (simp_all add: readString_sshString)

lemma skip_fields_truncated:
  "\<forall>d\<in>set fs. length d < 2 ^ 32 \<Longrightarrow> k < length (concat (map sshString fs)) \<Longrightarrow>
   skipStrings (length fs) (Slice (take k (concat (map sshString fs) @ rest))) = Some NilSlice"
proof (induction fs arbitrary: k)
  case Nil
  then show ?case by simp
next
  case (Cons d fs)
  let ?R = "concat (map sshString fs) @ rest"
  have e: "concat (map sshString (d # fs)) @ rest = sshString d @ ?R" by simp
  from Cons.prems have ld: "length d < 2 ^ 32" by simp
  show ?case
  proof (cases "k < 4 + length d")
    case True
    have "readString (Slice (take k (sshString d @ ?R))) = Some (NilSlice, NilSlice)"
      using ld True by (rule readString_truncated)
    then show ?thesis by (simp only: e length_Cons skipStrings.simps) (simp add: skipStrings_Nil)
  next
    case False
    then have "4 + length d \<le> k" by simp
    then have t: "take k (sshString d @ ?R) = sshString d @ take (k - (4 + length d)) ?R"
      by (rule take_sshString_ge)
    from Cons.prems False have k': "k - (4 + length d) < length (concat (map sshString fs))"
      by (simp add: length_sshString)
    from Cons.prems have "\<forall>d\<in>set fs. length d < 2 ^ 32" by simp
    from Cons.IH [OF this k']
    show ?thesis
      by (simp only: e t length_Cons skipStrings.simps readString_sshString [OF ld]) simp
  qed
qed

lemma skip_fields_layout:
  "skipStrings n (Slice bs) = Some (Slice r) \<Longrightarrow>
   \<exists>fs. length fs = n \<and> (\<forall>d\<in>set fs. length d < 2 ^ 32) \<and> bs = concat (map sshString fs) @ r"
proof (induction n arbitrary: bs)
  case 0
  then show ?case by simp
next
  case (Suc n)
  from readString_cases [of "Slice bs"] show ?case
  proof
    assume "readString (Slice bs) = Some (NilSlice, NilSlice)"
    with Suc.prems show ?thesis by (simp add: skipStrings_Nil)
  next
    assume "\<exists>d r. readString (Slice bs) = Some (Slice d, Slice r)"
    then obtain d bs' where rd: "readString (Slice bs) = Some (Slice d, Slice bs')" by blast
    from readString_ok_layout [OF rd] have bs: "bs = sshString d @ bs'" and ld: "length d < 2 ^ 32"
      by auto
    from Suc.prems rd have "skipStrings n (Slice bs') = Some (Slice r)" by simp
    from Suc.IH [OF this] obtain fs where fs: "length fs = n" "\<forall>d\<in>set fs. length d < 2 ^ 32"
      "bs' = concat (map sshString fs) @ r" by blast
    with bs ld have "length (d # fs) = Suc n \<and> (\<forall>x\<in>set (d # fs). length x < 2 ^ 32) \<and>
      bs = concat (map sshString (d # fs)) @ r" by simp
    then show ?thesis by blast
  qed
qed

lemma parseSig_layout:
  assumes "length alg < 2 ^ 32" and "length data < 2 ^ 32"
  shows "parseSig h (Slice (sshString alg @ sshString data @ trailer)) =
         Some (Inr (go_string (Slice alg), go_string h, Slice (data @ trailer)))"
  by (simp add: parseSig_def readString_sshString [OF assms(1)]
        readString_sshString [OF assms(2)] go_append_def)

lemma parseSig_Nil: "parseSig h NilSlice = Some (Inl InvalidSigBlob)"
  by (simp add: parseSig_def readString_Nil)

lemma parseSig_total: "\<exists>r. parseSig h sb = Some r"
proof -
  from readString_cases [of sb] show ?thesis
  proof
    assume "readString sb = Some (NilSlice, NilSlice)"
    then show ?thesis by (simp add: parseSig_def readString_Nil)
  next
    assume "\<exists>d r. readString sb = Some (Slice d, Slice r)"
    then obtain d r where 1: "readString sb = Some (Slice d, Slice r)" by blast
    from readString_cases [of "Slice r"] 1 show ?thesis
      by (auto simp: parseSig_def Let_def)
  qed
qed

lemma parseSig_accept:
  assumes "parseSig h (Slice sb) = Some (Inr res)"
  shows "\<exists>alg data trailer. sb = sshString alg @ sshString data @ trailer \<and>
           length alg < 2 ^ 32 \<and> length data < 2 ^ 32 \<and>
           res = (go_string (Slice alg), go_string h, Slice (data @ trailer))"
proof -
  from readString_cases [of "Slice sb"] assms
  obtain alg r1 where 1: "readString (Slice sb) = Some (Slice alg, Slice r1)"
    by (auto simp: parseSig_def readString_Nil)
  from readString_cases [of "Slice r1"] assms 1
  obtain data r2 where 2: "readString (Slice r1) = Some (Slice data, Slice r2)"
    by (auto simp: parseSig_def)
  from readString_ok_layout [OF 1] have a: "sb = sshString alg @ r1" "length alg < 2 ^ 32"
    by auto
  from readString_ok_layout [OF 2] have b: "r1 = sshString data @ r2" "length data < 2 ^ 32"
    by auto
  from assms 1 2 have "res = (go_string (Slice alg), go_string h, Slice (data @ r2))"
    by (auto simp: parseSig_def go_append_def)
  with a b show ?thesis by blast
qed

lemma parseFields_skipped_nil:
  "skipStrings 3 b0 = Some NilSlice \<Longrightarrow> parseFields b0 = Some (Inl Truncated)"
  by (simp add: parseFields_def del: skipStrings.simps)

lemma parseFields_step:
  assumes "skipStrings 3 b0 = Some (Slice b)" and "readString (Slice b) = Some (h, b1)"
    and "readString b1 = Some (sbl, x)"
  shows "parseFields b0 =
           (if sbl = NilSlice then Some (Inl InvalidSigBlob) else parseSig h sbl)"
  using assms by (simp add: parseFields_def del: skipStrings.simps)

lemma parseFields_layout:
  assumes "\<forall>d\<in>set fs. length d < 2 ^ 32" and "length fs = 3"
    and "length hash < 2 ^ 32" and "length sb < 2 ^ 32"
  shows "parseFields (Slice (concat (map sshString fs) @ sshString hash @ sshString sb @ extra)) =
         parseSig (Slice hash) (Slice sb)"
proof -
  have "skipStrings 3 (Slice (concat (map sshString fs) @ sshString hash @ sshString sb @ extra)) =
        Some (Slice (sshString hash @ sshString sb @ extra))"
    using skip_fields [OF assms(1)] by (simp only: assms(2))
  from parseFields_step [OF this readString_sshString [OF assms(3)]
      readString_sshString [OF assms(4)]]
  show ?thesis by simp
qed

lemma parseFields_truncated:
  assumes "\<forall>d\<in>set fs. length d < 2 ^ 32" and "length fs = 3"
    and "length hash < 2 ^ 32" and "length sb < 2 ^ 32"
    and "k < length (concat (map sshString fs)) + length (sshString hash) + length (sshString sb)"
  shows "parseFields (Slice (take k (concat (map sshString fs) @ sshString hash @ sshString sb @ extra))) =
         Some (Inl (if k < length (concat (map sshString fs)) then Truncated else InvalidSigBlob))"
proof (cases "k < length (concat (map sshString fs))")
  case True
  have "skipStrings 3 (Slice (take k (concat (map sshString fs) @ sshString hash @ sshString sb @ extra))) =
        Some NilSlice"
    using skip_fields_truncated [OF assms(1) True] by (simp only: assms(2))
  then have "parseFields (Slice (take k (concat (map sshString fs) @ sshString hash @ sshString sb @ extra))) =
        Some (Inl Truncated)"
    by (rule parseFields_skipped_nil)
  with True show ?thesis by (simp only: if_True)
next
  case False
  let ?F = "concat (map sshString fs)"
  let ?k1 = "k - length ?F"
  let ?R = "sshString hash @ sshString sb @ extra"
  from False have t: "take k (?F @ ?R) = ?F @ take ?k1 ?R" by simp
  have sk: "skipStrings 3 (Slice (?F @ take ?k1 ?R)) = Some (Slice (take ?k1 ?R))"
    using skip_fields [OF assms(1)] by (simp only: assms(2))
  have "parseFields (Slice (?F @ take ?k1 ?R)) = Some (Inl InvalidSigBlob)"
  proof (cases "?k1 < 4 + length hash")
    case True
    have rd: "readString (Slice (take ?k1 ?R)) = Some (NilSlice, NilSlice)"
      using assms(3) True by (rule readString_truncated)
    from parseFields_step [OF sk rd readString_Nil] show ?thesis by simp
  next
    case k1: False
    let ?k2 = "?k1 - (4 + length hash)"
    from k1 have "4 + length hash \<le> ?k1" by simp
    then have t2: "take ?k1 ?R = sshString hash @ take ?k2 (sshString sb @ extra)"
      by (rule take_sshString_ge)
    from assms(5) False k1 have "?k2 < 4 + length sb"
      by (simp add: length_sshString)
    with assms(4) have rd2: "readString (Slice (take ?k2 (sshString sb @ extra))) = Some (NilSlice, NilSlice)"
      by (rule readString_truncated)
    have rd1: "readString (Slice (take ?k1 ?R)) = Some (Slice hash, Slice (take ?k2 (sshString sb @ extra)))"
      by (simp only: t2 readString_sshString [OF assms(3)])
    from parseFields_step [OF sk rd1 rd2] show ?thesis by simp
  qed
  with False show ?thesis by (simp only: t if_False)
qed

lemma length_magic: "length (bytes_of ''SSHSIG'') = 6"
  by (simp add: bytes_of_def)

lemma parse_header:
  "parseSignatureBlob (Slice (bytes_of ''SSHSIG'' @ PutUint32 1 @ F)) = parseFields (Slice F)"
proof -
  let ?P = "bytes_of ''SSHSIG'' @ PutUint32 1 @ F"
  have l: "length ?P = 10 + length F" by (simp add: length_magic length_PutUint32)
  have m: "take 6 ?P = bytes_of ''SSHSIG''" by (simp add: length_magic)
  have d6: "drop 6 ?P = PutUint32 1 @ F" by (simp add: length_magic)
  have d10: "drop 10 ?P = F" by (simp add: length_magic length_PutUint32)
  show ?thesis
    by (simp only: parse_unfold m d6 d10 go_string_bytes_of be32_PutUint32)
       (simp add: length_magic length_PutUint32)
qed

lemma parse_short_magic:
  "length P < 6 \<Longrightarrow> parseSignatureBlob (Slice P) = Some (Inl InvalidMagic)"
  by (simp add: parse_unfold)

lemma parse_len_lt10:
  "length P < 10 \<Longrightarrow> go_string (Slice (take 6 P)) = ''SSHSIG'' \<Longrightarrow> 6 \<le> length P \<Longrightarrow>
   parseSignatureBlob (Slice P) = Some (Inl InvalidVersion)"
  by (simp add: parse_unfold)

lemma parse_short_version:
  assumes "6 \<le> k" and "k < 10" and "6 \<le> length P" and "take 6 P = bytes_of ''SSHSIG''"
  shows "parseSignatureBlob (Slice (take k P)) = Some (Inl InvalidVersion)"
proof (rule parse_len_lt10)
  show "length (take k P) < 10" using assms by simp
  have "take 6 (take k P) = take 6 P" using assms by (simp add: min_def)
  then show "go_string (Slice (take 6 (take k P))) = ''SSHSIG''"
    by (simp only: assms(4) go_string_bytes_of)
  show "6 \<le> length (take k P)" using assms by simp
qed

lemma take_header:
  "10 \<le> k \<Longrightarrow> take k (bytes_of ''SSHSIG'' @ PutUint32 1 @ F) =
     bytes_of ''SSHSIG'' @ PutUint32 1 @ take (k - 10) F"
  by (simp add: length_magic length_PutUint32)

lemma parseFields_total: "\<exists>r. parseFields b = Some r"
proof -
  obtain b1 where 1: "skipStrings 3 b = Some b1" using skipStrings_total by blast
  show ?thesis
  proof (cases b1)
    case NilSlice
    with 1 show ?thesis by (simp add: parseFields_skipped_nil)
  next
    case (Slice bs)
    obtain h b2 where 2: "readString (Slice bs) = Some (h, b2)"
      using readString_cases [of "Slice bs"] by blast
    obtain s x where 3: "readString b2 = Some (s, x)"
      using readString_cases [of b2] by blast
    from parseFields_step [OF 1 [unfolded Slice] 2 3] parseSig_total [of h s]
    show ?thesis by auto
  qed
qed

lemma parse_total: "\<exists>r. parseSignatureBlob b = Some r"
proof (cases b)
  case NilSlice
  then show ?thesis by (simp add: parse_Nil)
next
  case (Slice P)
  with parseFields_total [of "Slice (drop 10 P)"] show ?thesis
    by (auto simp: parse_unfold)
qed

lemma bytes_of_go_string: "bytes_of (go_string (Slice xs)) = xs"
proof -
  have "\<And>w :: byte. of_char (char_of (unat w)) = w"
  proof -
    fix w :: byte
    have "unat (of_char (char_of (unat w)) :: byte) = unat w"
    proof -
      have "(of_char (char_of (unat w)) :: byte) = of_nat (of_char (char_of (unat w)))"
        by (simp only: of_nat_of_char)
      also have "\<dots> = of_nat (unat w mod 256)" by (simp only: of_char_of)
      also have "\<dots> = of_nat (unat w)"
      proof -
        have "unat w < 2 ^ LENGTH(8)" by (rule unsigned_less)
        then have "unat w < 256" by simp
        then show ?thesis by simp
      qed
      also have "\<dots> = w" by simp
      finally show ?thesis by simp
    qed
    then show "of_char (char_of (unat w)) = w" by (simp only: word_unat_eq_iff)
  qed
  then show ?thesis
    by (simp add: bytes_of_def go_string_def comp_def)
qed

lemma parseFields_accept:
  assumes "parseFields (Slice bs) = Some (Inr res)"
  shows "\<exists>fs hash sb extra. length fs = 3 \<and> (\<forall>d\<in>set fs. length d < 2 ^ 32) \<and>
           length hash < 2 ^ 32 \<and> length sb < 2 ^ 32 \<and>
           bs = concat (map sshString fs) @ sshString hash @ sshString sb @ extra \<and>
           parseSig (Slice hash) (Slice sb) = Some (Inr res)"
proof -
  obtain b1 where 1: "skipStrings 3 (Slice bs) = Some b1" using skipStrings_total by blast
  with assms obtain r1 where b1: "b1 = Slice r1"
    by (cases b1) (auto simp: parseFields_skipped_nil)
  from skip_fields_layout [OF 1 [unfolded b1]] obtain fs where
    fs: "length fs = 3" "\<forall>d\<in>set fs. length d < 2 ^ 32" "bs = concat (map sshString fs) @ r1"
    by blast
  from readString_cases [of "Slice r1"] show ?thesis
  proof
    assume 2: "readString (Slice r1) = Some (NilSlice, NilSlice)"
    from parseFields_step [OF 1 [unfolded b1] 2 readString_Nil] assms
    show ?thesis by simp
  next
    assume "\<exists>d r. readString (Slice r1) = Some (Slice d, Slice r)"
    then obtain hash r2 where 2: "readString (Slice r1) = Some (Slice hash, Slice r2)" by blast
    from readString_cases [of "Slice r2"] show ?thesis
    proof
      assume 3: "readString (Slice r2) = Some (NilSlice, NilSlice)"
      from parseFields_step [OF 1 [unfolded b1] 2 3] assms show ?thesis by simp
    next
      assume "\<exists>d r. readString (Slice r2) = Some (Slice d, Slice r)"
      then obtain sb extra where 3: "readString (Slice r2) = Some (Slice sb, Slice extra)" by blast
      from parseFields_step [OF 1 [unfolded b1] 2 3] assms
      have ps: "parseSig (Slice hash) (Slice sb) = Some (Inr res)" by simp
      from readString_ok_layout [OF 2] have h: "r1 = sshString hash @ r2" "length hash < 2 ^ 32"
        by auto
      from readString_ok_layout [OF 3] have s: "r2 = sshString sb @ extra" "length sb < 2 ^ 32"
        by auto
      from fs h s ps show ?thesis by blast
    qed
  qed
qed

lemma sshsigBlob_fields:
  "sshsigBlob pk ns rs hash sb @ extra =
     bytes_of ''SSHSIG'' @ PutUint32 1 @
       (concat (map sshString [pk, ns, rs]) @ sshString hash @ sshString sb @ extra)"
  by (simp add: sshsigBlob_def)

lemma length_sshsigBlob:
  "length (sshsigBlob pk ns rs hash sb) =
     30 + length pk + length ns + length rs + length hash + length sb"
  by (simp add: sshsigBlob_def length_magic length_PutUint32 length_sshString)

lemma parse_layout:
  assumes "length pk < 2 ^ 32" "length ns < 2 ^ 32" "length rs < 2 ^ 32"
    and "length hash < 2 ^ 32" and "length sb < 2 ^ 32"
  shows "parseSignatureBlob (Slice (sshsigBlob pk ns rs hash sb @ extra)) =
         parseSig (Slice hash) (Slice sb)"
proof -
  have fs: "\<forall>d\<in>set [pk, ns, rs]. length d < 2 ^ 32" "length [pk, ns, rs] = 3"
    using assms by simp_all
  show ?thesis
    by (simp only: sshsigBlob_fields parse_header parseFields_layout [OF fs assms(4,5)])
qed

lemma parse_prefix:
  assumes "length pk < 2 ^ 32" "length ns < 2 ^ 32" "length rs < 2 ^ 32"
    and "length hash < 2 ^ 32" and "length sb < 2 ^ 32"
  shows "parseSignatureBlob (Slice (take k (sshsigBlob pk ns rs hash sb @ extra))) =
           (if k < 6 then Some (Inl InvalidMagic)
            else if k < 10 then Some (Inl InvalidVersion)
            else if k < 22 + length pk + length ns + length rs then Some (Inl Truncated)
            else if k < length (sshsigBlob pk ns rs hash sb) then Some (Inl InvalidSigBlob)
            else parseSig (Slice hash) (Slice sb))"
proof -
  let ?B = "sshsigBlob pk ns rs hash sb"
  let ?F = "concat (map sshString [pk, ns, rs])"
  let ?R = "?F @ sshString hash @ sshString sb @ extra"
  have fs: "\<forall>d\<in>set [pk, ns, rs]. length d < 2 ^ 32" "length [pk, ns, rs] = 3"
    using assms by simp_all
  have lF: "length ?F = 12 + length pk + length ns + length rs"
    by (simp add: length_sshString)
  have lB: "length ?B = 30 + length pk + length ns + length rs + length hash + length sb"
    by (rule length_sshsigBlob)
  consider (magic) "k < 6" | (version) "6 \<le> k" "k < 10"
    | (fields) "10 \<le> k" "k < length ?B" | (whole) "length ?B \<le> k"
    by linarith
  then show ?thesis
  proof cases
    case magic
    then have "length (take k (?B @ extra)) < 6" by simp
    then have "parseSignatureBlob (Slice (take k (?B @ extra))) = Some (Inl InvalidMagic)"
      by (rule parse_short_magic)
    with magic show ?thesis by (simp only: if_True)
  next
    case version
    have "6 \<le> length (?B @ extra)" using lB by simp
    moreover have "take 6 (?B @ extra) = bytes_of ''SSHSIG''"
      by (simp add: sshsigBlob_def length_magic)
    ultimately have "parseSignatureBlob (Slice (take k (?B @ extra))) = Some (Inl InvalidVersion)"
      using version by (intro parse_short_version)
    with version show ?thesis by simp
  next
    case fields
    from fields(1) have t: "take k (?B @ extra) = bytes_of ''SSHSIG'' @ PutUint32 1 @ take (k - 10) ?R"
      by (simp only: sshsigBlob_fields take_header)
    from fields have k': "k - 10 < length ?F + length (sshString hash) + length (sshString sb)"
      by (simp add: lF lB length_sshString)
    have "parseSignatureBlob (Slice (take k (?B @ extra))) =
            Some (Inl (if k - 10 < length ?F then Truncated else InvalidSigBlob))"
      by (simp only: t parse_header parseFields_truncated [OF fs assms(4,5) k'])
    with fields show ?thesis by (auto simp add: lF lB length_sshString)
  next
    case whole
    then have "take k (?B @ extra) = ?B @ take (k - length ?B) extra" by simp
    then have "parseSignatureBlob (Slice (take k (?B @ extra))) = parseSig (Slice hash) (Slice sb)"
      by (simp only: parse_layout [OF assms])
    with whole show ?thesis by (simp only: lB) simp
  qed
qed

lemma parse_accept:
  assumes "parseSignatureBlob (Slice P) = Some (Inr res)"
  shows "\<exists>pk ns rs hash sb extra.
           P = sshsigBlob pk ns rs hash sb @ extra \<and>
           length pk < 2 ^ 32 \<and> length ns < 2 ^ 32 \<and> length rs < 2 ^ 32 \<and>
           length hash < 2 ^ 32 \<and> length sb < 2 ^ 32 \<and>
           parseSig (Slice hash) (Slice sb) = Some (Inr res)"
proof -
  from assms have l: "10 \<le> length P"
    and m: "go_string (Slice (take 6 P)) = ''SSHSIG''"
    and v: "be32 (drop 6 P) = 1"
    and f: "parseFields (Slice (drop 10 P)) = Some (Inr res)"
    by (auto simp: parse_unfold split: if_splits)
  from m have m': "take 6 P = bytes_of ''SSHSIG''"
    using bytes_of_go_string [of "take 6 P"] by simp
  from l have "PutUint32 (be32 (drop 6 P)) = take 4 (drop 6 P)"
    by (intro PutUint32_be32) simp
  with v have v': "take 4 (drop 6 P) = PutUint32 1" by simp
  have "P = take 6 P @ take 4 (drop 6 P) @ drop 4 (drop 6 P)"
    by (simp only: append_take_drop_id)
  then have P: "P = bytes_of ''SSHSIG'' @ PutUint32 1 @ drop 10 P"
    by (simp add: m' v')
  from parseFields_accept [OF f] obtain fs hash sb extra where
    fs: "length fs = 3" "\<forall>d\<in>set fs. length d < 2 ^ 32"
    and h: "length hash < 2 ^ 32" "length sb < 2 ^ 32"
    and d: "drop 10 P = concat (map sshString fs) @ sshString hash @ sshString sb @ extra"
    and ps: "parseSig (Slice hash) (Slice sb) = Some (Inr res)"
    by blast
  from fs(1) obtain pk ns rs where fs3: "fs = [pk, ns, rs]"
    by (cases fs; cases "tl fs"; cases "tl (tl fs)") auto
  have "P = sshsigBlob pk ns rs hash sb @ extra"
    by (subst P) (simp add: d fs3 sshsigBlob_def)
  moreover from fs(2) have "length pk < 2 ^ 32" "length ns < 2 ^ 32" "length rs < 2 ^ 32"
    unfolding fs3 by simp_all
  ultimately show ?thesis using h ps by blast
qed

section \<open>Properties of the parser\<close>

lemma len0_bytes: "len r = 0 \<Longrightarrow> bytes r = []"
  by (cases r) simp_all

text \<open>
  Claim C7. When, inside the signature blob, the parser reads the signature-algorithm
  name and then the signature-data string, the bytes left in the signature blob after
  these two reads are appended to the signature data, unchanged and in order; when
  nothing is left the signature data is returned as it was read.
\<close>

theorem trailing_bytes_appended:
  assumes "length pk < 2 ^ 32" and "length ns < 2 ^ 32" and "length rs < 2 ^ 32"
    and "length hash < 2 ^ 32" and "length sb < 2 ^ 32"
    and "readString (Slice sb) = Some (sigAlg, rest1)"
    and "readString rest1 = Some (Slice sigData, rest2)"
  shows "parseSignatureBlob (Slice (sshsigBlob pk ns rs hash sb @ extra)) =
           Some (Inr (go_string sigAlg, go_string (Slice hash), Slice (sigData @ bytes rest2)))"
proof -
  have "parseSig (Slice hash) (Slice sb) =
          Some (Inr (go_string sigAlg, go_string (Slice hash), Slice (sigData @ bytes rest2)))"
    using assms(6,7) by (simp add: parseSig_def go_append_def len0_bytes)
  with parse_layout [OF assms(1-5)] show ?thesis by simp
qed

theorem trailing_bytes_appended_witness:
  "parseSignatureBlob
     (Slice (sshsigBlob [1, 2] (bytes_of ''file'') [] (bytes_of ''sha512'')
               (sshString (bytes_of ''sk-ssh-ed25519@openssh.com'') @ sshString [7, 8, 9] @ [1, 0, 0, 0, 5])
             @ [])) =
   Some (Inr (''sk-ssh-ed25519@openssh.com'', ''sha512'', Slice ([7, 8, 9] @ [1, 0, 0, 0, 5])))"
proof -
  let ?alg = "bytes_of ''sk-ssh-ed25519@openssh.com''"
  let ?sb = "sshString ?alg @ sshString [7, 8, 9] @ [1, 0, 0, 0, 5]"
  have 1: "readString (Slice ?sb) = Some (Slice ?alg, Slice (sshString [7, 8, 9] @ [1, 0, 0, 0, 5]))"
    by (rule readString_sshString) (simp add: bytes_of_def)
  have 2: "readString (Slice (sshString [7, 8, 9] @ [1, 0, 0, 0, 5])) =
           Some (Slice [7, 8, 9], Slice [1, 0, 0, 0, 5])"
    by (rule readString_sshString) simp
  have l: "length [1, 2 :: byte] < 2 ^ 32" "length (bytes_of ''file'') < 2 ^ 32"
    "length ([] :: byte list) < 2 ^ 32" "length (bytes_of ''sha512'') < 2 ^ 32"
    "length ?sb < 2 ^ 32"
    by (simp_all add: bytes_of_def length_sshString)
  from trailing_bytes_appended [OF l 1 2, of "[]"] show ?thesis
    by (simp add: go_string_bytes_of)
qed

text \<open>
  Claim C3, as the code has it. A payload the parser accepts is the wire layout (magic,
  version 1, public key, namespace, reserved, hash algorithm, signature blob) followed
  by bytes the parser ignores. On every prefix of it the parser returns (no slice
  expression goes out of range). A prefix that ends before the end of the
  signature-blob field is rejected, with the error of the stage that runs short: the
  magic error below 6 bytes, the version error below 10, the truncation error while one
  of the three skipped fields is incomplete, and the invalid-signature-blob error while
  the hash-algorithm or signature-blob field is incomplete. A prefix that only drops
  ignored trailing bytes is accepted with the same result.
\<close>

theorem truncation_rejected:
  assumes "parseSignatureBlob (Slice P) = Some (Inr res)"
  shows "\<exists>pk ns rs hash sb extra.
           P = sshsigBlob pk ns rs hash sb @ extra \<and>
           (\<forall>k. parseSignatureBlob (Slice (take k P)) =
                  Some (if k < 6 then Inl InvalidMagic
                        else if k < 10 then Inl InvalidVersion
                        else if k < 22 + length pk + length ns + length rs then Inl Truncated
                        else if k < length (sshsigBlob pk ns rs hash sb) then Inl InvalidSigBlob
                        else Inr res))"
proof -
  from parse_accept [OF assms] obtain pk ns rs hash sb extra where
    P: "P = sshsigBlob pk ns rs hash sb @ extra"
    and l: "length pk < 2 ^ 32" "length ns < 2 ^ 32" "length rs < 2 ^ 32"
      "length hash < 2 ^ 32" "length sb < 2 ^ 32"
    and ps: "parseSig (Slice hash) (Slice sb) = Some (Inr res)"
    by blast
  have "\<forall>k. parseSignatureBlob (Slice (take k P)) =
               Some (if k < 6 then Inl InvalidMagic
                     else if k < 10 then Inl InvalidVersion
                     else if k < 22 + length pk + length ns + length rs then Inl Truncated
                     else if k < length (sshsigBlob pk ns rs hash sb) then Inl InvalidSigBlob
                     else Inr res)"
    unfolding P by (simp only: parse_prefix [OF l] ps) simp
  with P show ?thesis by blast
qed

text \<open>
  The theorem at an accepted payload with one ignored trailing byte.
\<close>

theorem truncation_rejected_witness:
  "\<exists>pk ns rs hash sb extra.
     sshsigBlob [] [] [] (bytes_of ''sha512'')
       (sshString (bytes_of ''ssh-ed25519'') @ sshString [1, 2, 3]) @ [0] =
     sshsigBlob pk ns rs hash sb @ extra \<and>
     (\<forall>k. parseSignatureBlob
            (Slice (take k (sshsigBlob [] [] [] (bytes_of ''sha512'')
               (sshString (bytes_of ''ssh-ed25519'') @ sshString [1, 2, 3]) @ [0]))) =
          Some (if k < 6 then Inl InvalidMagic
                else if k < 10 then Inl InvalidVersion
                else if k < 22 + length pk + length ns + length rs then Inl Truncated
                else if k < length (sshsigBlob pk ns rs hash sb) then Inl InvalidSigBlob
                else Inr (''ssh-ed25519'', ''sha512'', Slice [1, 2, 3])))"
proof -
  have h: "parseSignatureBlob
             (Slice (sshsigBlob [] [] [] (bytes_of ''sha512'')
               (sshString (bytes_of ''ssh-ed25519'') @ sshString [1, 2, 3]) @ [0])) =
           Some (Inr (''ssh-ed25519'', ''sha512'', Slice [1, 2, 3]))"
    by code_simp
  show ?thesis by (rule truncation_rejected [OF h])
qed

text \<open>
  Claim C3 as stated fails: of an accepted 59-byte payload the 58-byte prefix is accepted
  too, the 5-byte prefix fails with the magic error, the 9-byte prefix with the version
  error and the 40-byte prefix with the invalid-signature-blob error, none of them the
  truncation error.
\<close>

theorem truncation_error_counterexample:
  "parseSignatureBlob
     (Slice (sshsigBlob [] [] [] (bytes_of ''sha512'')
        (sshString (bytes_of ''ssh-ed25519'') @ sshString [1, 2, 3]) @ [0])) =
     Some (Inr (''ssh-ed25519'', ''sha512'', Slice [1, 2, 3])) \<and>
   length (sshsigBlob [] [] [] (bytes_of ''sha512'')
        (sshString (bytes_of ''ssh-ed25519'') @ sshString [1, 2, 3]) @ [0]) = 59 \<and>
   parseSignatureBlob
     (Slice (take 58 (sshsigBlob [] [] [] (bytes_of ''sha512'')
        (sshString (bytes_of ''ssh-ed25519'') @ sshString [1, 2, 3]) @ [0]))) =
     Some (Inr (''ssh-ed25519'', ''sha512'', Slice [1, 2, 3])) \<and>
   parseSignatureBlob
     (Slice (take 5 (sshsigBlob [] [] [] (bytes_of ''sha512'')
        (sshString (bytes_of ''ssh-ed25519'') @ sshString [1, 2, 3]) @ [0]))) =
     Some (Inl InvalidMagic) \<and>
   parseSignatureBlob
     (Slice (take 9 (sshsigBlob [] [] [] (bytes_of ''sha512'')
        (sshString (bytes_of ''ssh-ed25519'') @ sshString [1, 2, 3]) @ [0]))) =
     Some (Inl InvalidVersion) \<and>
   parseSignatureBlob
     (Slice (take 40 (sshsigBlob [] [] [] (bytes_of ''sha512'')
        (sshString (bytes_of ''ssh-ed25519'') @ sshString [1, 2, 3]) @ [0]))) =
     Some (Inl InvalidSigBlob)"
  by code_simp

lemma sameExceptData_length: "sameExceptData n b b' \<Longrightarrow> length b = length b'"
  by (cases n) (auto split: if_splits)

lemma sameExceptData_Nil: "sameExceptData n [] []"
  by (cases n) simp_all

lemma skipStrings_sameExceptData:
  "sameExceptData n b b' \<Longrightarrow>
   (skipStrings n (Slice b) = Some NilSlice \<and> skipStrings n (Slice b') = Some NilSlice) \<or>
   (\<exists>r. skipStrings n (Slice b) = Some (Slice r) \<and> skipStrings n (Slice b') = Some (Slice r))"
proof (induction n arbitrary: b b')
  case 0
  then show ?case by simp
next
  case (Suc n)
  show ?case
  proof (cases "length b < 4")
    case True
    with Suc.prems have "b = b'" by simp
    with True show ?thesis by (simp add: readString_short skipStrings_Nil)
  next
    case False
    with Suc.prems have l: "length b = length b'" and t: "take 4 b = take 4 b'"
      and s: "sameExceptData n (drop (4 + unat (be32 b)) b) (drop (4 + unat (be32 b)) b')"
      by simp_all
    from t False have e: "be32 b' = be32 b" by (intro be32_cong [symmetric]) simp_all
    show ?thesis
    proof (cases "length b - 4 < unat (be32 b)")
      case True
      with l e show ?thesis
        by (simp add: readString_missing skipStrings_Nil)
    next
      case ok: False
      have 1: "readString (Slice b) =
                 Some (Slice (take (unat (be32 b)) (drop 4 b)), Slice (drop (4 + unat (be32 b)) b))"
        using False ok by (simp add: readString_Slice add.commute)
      have 2: "readString (Slice b') =
                 Some (Slice (take (unat (be32 b)) (drop 4 b')), Slice (drop (4 + unat (be32 b)) b'))"
        using False ok l e by (simp add: readString_Slice add.commute)
      from Suc.IH [OF s] 1 2 show ?thesis by simp
    qed
  qed
qed

lemma parseFields_sameExceptData:
  assumes "sameExceptData 3 b b'"
  shows "parseFields (Slice b) = parseFields (Slice b')"
  using skipStrings_sameExceptData [OF assms]
  by (auto simp: parseFields_def simp del: skipStrings.simps)

text \<open>
  Claim C9. The parser's result does not depend on the contents of the public key,
  namespace and reserved fields: two payloads with the same first ten bytes that differ
  at most in the data bytes of these three fields parse to the same result, the same
  names and signature bytes or the same error.
\<close>

theorem skipped_fields_irrelevant:
  assumes "take 10 P = take 10 P'" and "sameExceptData 3 (drop 10 P) (drop 10 P')"
  shows "parseSignatureBlob (Slice P) = parseSignatureBlob (Slice P')"
proof -
  from assms(2) have ld: "length (drop 10 P) = length (drop 10 P')"
    by (rule sameExceptData_length)
  from assms(1) have "length (take 10 P) = length (take 10 P')" by simp
  with ld have l: "length P = length P'" by (simp add: min_def split: if_splits)
  have t6: "take 6 P = take 6 P'"
  proof -
    have "take 6 (take 10 P) = take 6 (take 10 P')" by (simp only: assms(1))
    then show ?thesis by (simp add: min_def)
  qed
  have v: "10 \<le> length P \<Longrightarrow> be32 (drop 6 P) = be32 (drop 6 P')"
  proof (rule be32_cong)
    have "drop 6 (take 10 P) = drop 6 (take 10 P')" by (simp only: assms(1))
    then show "take 4 (drop 6 P) = take 4 (drop 6 P')" by (simp add: drop_take)
    assume "10 \<le> length P"
    then show "4 \<le> length (drop 6 P)" by simp
  qed
  from parseFields_sameExceptData [OF assms(2)]
  have f: "parseFields (Slice (drop 10 P)) = parseFields (Slice (drop 10 P'))" .
  show ?thesis
  proof (cases "10 \<le> length P")
    case True
    with v l t6 f show ?thesis by (simp add: parse_unfold)
  next
    case False
    with l t6 show ?thesis by (simp add: parse_unfold)
  qed
qed

theorem skipped_fields_irrelevant_witness:
  "parseSignatureBlob
     (Slice (sshsigBlob [1, 2] (bytes_of ''file'') [3] (bytes_of ''sha512'')
        (sshString (bytes_of ''ssh-ed25519'') @ sshString [1, 2, 3]))) =
   parseSignatureBlob
     (Slice (sshsigBlob [9, 8] (bytes_of ''mail'') [7] (bytes_of ''sha512'')
        (sshString (bytes_of ''ssh-ed25519'') @ sshString [1, 2, 3])))"
proof -
  let ?P = "sshsigBlob [1, 2] (bytes_of ''file'') [3] (bytes_of ''sha512'')
        (sshString (bytes_of ''ssh-ed25519'') @ sshString [1, 2, 3])"
  let ?P' = "sshsigBlob [9, 8] (bytes_of ''mail'') [7] (bytes_of ''sha512'')
        (sshString (bytes_of ''ssh-ed25519'') @ sshString [1, 2, 3])"
  have h1: "take 10 ?P = take 10 ?P'" by code_simp
  have h2: "sameExceptData 3 (drop 10 ?P) (drop 10 ?P')" by code_simp
  show ?thesis by (rule skipped_fields_irrelevant [OF h1 h2])
qed

section \<open>Properties of the codec\<close>

lemma DecodeString_EncodeToString: "DecodeString (EncodeToString bs) = Inr bs"
  by (simp add: DecodeString_def base64_roundtrip)

lemma EncodeToString_nonempty: "bs \<noteq> [] \<Longrightarrow> EncodeToString bs \<noteq> []"
  by (induction bs rule: EncodeToString.induct) (simp_all add: Let_def)

lemma table_prefix_ascii: "(a, c) \<in> set algsToPrefix \<Longrightarrow> string_of_byte c = [c]"
  by (auto simp: registry_defs string_of_byte_def)

lemma lookup_entry: "(a, c) \<in> set algsToPrefix \<Longrightarrow> map_of algsToPrefix a = Some c"
  using keys_distinct by simp

lemma Encode_parsed:
  assumes "len armored \<le> maxArmoredSize" and "pemDecode armored = Some block"
    and "Type block = ''SSH SIGNATURE''"
    and "parseSignatureBlob (Bytes block) = Some (Inr (sigAlg, hashAlg, sigData))"
    and "(\<lparr>Sig = sigAlg, Hash = hashAlg\<rparr>, prefix) \<in> set algsToPrefix"
  shows "Encode pemDecode armored = Some (Inr (prefix # EncodeToString (bytes sigData)))"
  using assms(1-4) lookup_entry [OF assms(5)] table_prefix_ascii [OF assms(5)]
  by (simp add: Encode_def)

lemma Decode_encoded:
  assumes "(a, c) \<in> set algsToPrefix" and "bs \<noteq> []"
  shows "Decode (c # EncodeToString bs) = Some (Inr (a, bs))"
  using Decode_known_prefix [OF assms(1) EncodeToString_nonempty [OF assms(2)]]
  by (simp add: DecodeString_EncodeToString)

text \<open>
  Claim C6. On an input of 8193 bytes or more \<open>Encode\<close> fails with the size error,
  whatever the unwrapping of the armor would return: the check comes before
  \<open>pem.Decode\<close> and the parser.
\<close>

theorem Encode_size_ceiling:
  "8193 \<le> len armored \<Longrightarrow> Encode pemDecode armored = Some (Inl TooLarge)"
  by (simp add: Encode_def maxArmoredSize_def)

theorem Encode_size_ceiling_witness:
  "Encode (\<lambda>_. Some \<lparr>Type = ''SSH SIGNATURE'',
                      Bytes = Slice (sshsigBlob [] [] [] (bytes_of ''sha512'')
                        (sshString (bytes_of ''ssh-ed25519'') @ sshString [1, 2, 3]))\<rparr>)
     (Slice (replicate 8193 0)) = Some (Inl TooLarge)"
proof -
  have h: "8193 \<le> len (Slice (replicate 8193 0))" by simp
  show ?thesis by (rule Encode_size_ceiling [OF h])
qed

text \<open>
  Claim C1, as the code has it. For every pair of the table and every envelope within
  the size ceiling whose payload is the wire layout carrying that pair and a non-empty
  signature (the signature data followed by the trailer bytes of the signature blob, if
  any), \<open>Encode\<close> returns the pair's prefix followed by the base64 text of the signature,
  and \<open>Decode\<close> of that token returns the same pair and the same signature bytes.
\<close>

theorem Encode_Decode_roundtrip:
  assumes "len armored \<le> maxArmoredSize"
    and "pemDecode armored =
           Some \<lparr>Type = ''SSH SIGNATURE'',
                 Bytes = Slice (sshsigBlob pk ns rs (bytes_of hashAlg)
                           (sshString (bytes_of sigAlg) @ sshString sig @ trailer) @ extra)\<rparr>"
    and "length (sshsigBlob pk ns rs (bytes_of hashAlg)
           (sshString (bytes_of sigAlg) @ sshString sig @ trailer)) < 2 ^ 32"
    and "(\<lparr>Sig = sigAlg, Hash = hashAlg\<rparr>, prefix) \<in> set algsToPrefix"
    and "sig @ trailer \<noteq> []"
  shows "Encode pemDecode armored = Some (Inr (prefix # EncodeToString (sig @ trailer))) \<and>
         Decode (prefix # EncodeToString (sig @ trailer)) =
           Some (Inr (\<lparr>Sig = sigAlg, Hash = hashAlg\<rparr>, sig @ trailer))"
proof -
  let ?sb = "sshString (bytes_of sigAlg) @ sshString sig @ trailer"
  from assms(3) have l: "length pk < 2 ^ 32" "length ns < 2 ^ 32" "length rs < 2 ^ 32"
    "length (bytes_of hashAlg) < 2 ^ 32" "length ?sb < 2 ^ 32"
    by (simp_all add: length_sshsigBlob)
  from l(5) have l2: "length (bytes_of sigAlg) < 2 ^ 32" "length sig < 2 ^ 32"
    by (simp_all add: length_sshString)
  let ?block = "\<lparr>Type = ''SSH SIGNATURE'',
                  Bytes = Slice (sshsigBlob pk ns rs (bytes_of hashAlg) ?sb @ extra)\<rparr>"
  have p: "parseSignatureBlob (Slice (sshsigBlob pk ns rs (bytes_of hashAlg) ?sb @ extra)) =
          Some (Inr (sigAlg, hashAlg, Slice (sig @ trailer)))"
    by (simp only: parse_layout [OF l] parseSig_layout [OF l2] go_string_bytes_of)
  have ty: "Type ?block = ''SSH SIGNATURE''" by simp
  have pb: "parseSignatureBlob (Bytes ?block) = Some (Inr (sigAlg, hashAlg, Slice (sig @ trailer)))"
    using p by simp
  from Encode_parsed [where pemDecode = pemDecode and armored = armored,
      OF assms(1) assms(2) ty pb assms(4)]
  have "Encode pemDecode armored = Some (Inr (prefix # EncodeToString (sig @ trailer)))"
    by simp
  with Decode_encoded [OF assms(4,5)] show ?thesis by simp
qed

theorem Encode_Decode_roundtrip_witness:
  "Encode (\<lambda>_. Some \<lparr>Type = ''SSH SIGNATURE'',
                      Bytes = Slice (sshsigBlob [1, 2] (bytes_of ''file'') [] (bytes_of ''sha256'')
                        (sshString (bytes_of ''sk-ecdsa-sha2-nistp256@openssh.com'') @
                         sshString [7, 8, 9] @ [1, 0, 0, 0, 5]) @ [])\<rparr>)
     (Slice [0x2D]) = Some (Inr (CHR ''g'' # EncodeToString ([7, 8, 9] @ [1, 0, 0, 0, 5]))) \<and>
   Decode (CHR ''g'' # EncodeToString ([7, 8, 9] @ [1, 0, 0, 0, 5])) =
     Some (Inr (\<lparr>Sig = ''sk-ecdsa-sha2-nistp256@openssh.com'', Hash = ''sha256''\<rparr>,
                [7, 8, 9] @ [1, 0, 0, 0, 5]))"
proof -
  have 1: "len (Slice [0x2D]) \<le> maxArmoredSize" by (simp add: maxArmoredSize_def)
  have 3: "length (sshsigBlob [1, 2] (bytes_of ''file'') [] (bytes_of ''sha256'')
                        (sshString (bytes_of ''sk-ecdsa-sha2-nistp256@openssh.com'') @
                         sshString [7, 8, 9] @ [1, 0, 0, 0, 5])) < 2 ^ 32"
    by (simp add: length_sshsigBlob length_sshString bytes_of_def)
  have 4: "(\<lparr>Sig = ''sk-ecdsa-sha2-nistp256@openssh.com'', Hash = ''sha256''\<rparr>, CHR ''g'')
             \<in> set algsToPrefix"
    by (simp add: registry_defs)
  have 5: "[7, 8, 9] @ [1, 0, 0, 0, 5] \<noteq> ([] :: byte list)" by simp
  let ?pem = "\<lambda>_ :: slice. Some \<lparr>Type = ''SSH SIGNATURE'',
                      Bytes = Slice (sshsigBlob [1, 2] (bytes_of ''file'') [] (bytes_of ''sha256'')
                        (sshString (bytes_of ''sk-ecdsa-sha2-nistp256@openssh.com'') @
                         sshString [7, 8, 9] @ [1, 0, 0, 0, 5]) @ [])\<rparr>"
  have 2: "?pem (Slice [0x2D]) = Some \<lparr>Type = ''SSH SIGNATURE'',
                      Bytes = Slice (sshsigBlob [1, 2] (bytes_of ''file'') [] (bytes_of ''sha256'')
                        (sshString (bytes_of ''sk-ecdsa-sha2-nistp256@openssh.com'') @
                         sshString [7, 8, 9] @ [1, 0, 0, 0, 5]) @ [])\<rparr>" by simp
  show ?thesis
    by (rule Encode_Decode_roundtrip [where pemDecode = ?pem and armored = "Slice [0x2D]",
          OF 1 2 3 4 5])
qed

text \<open>
  Claim C1 as stated fails for the empty signature: \<open>Encode\<close> accepts the envelope and
  returns the one-character token \<open>e\<close>, which \<open>Decode\<close> rejects as too short.
\<close>

theorem empty_signature_counterexample:
  "Encode (\<lambda>_. Some \<lparr>Type = ''SSH SIGNATURE'',
                      Bytes = Slice (sshsigBlob [] [] [] (bytes_of ''sha512'')
                        (sshString (bytes_of ''ssh-ed25519'') @ sshString []))\<rparr>)
     (Slice []) = Some (Inr ''e'') \<and>
   Decode ''e'' = Some (Inl TooShort)"
  by code_simp

text \<open>
  Claim C2. An envelope whose parsed fields are \<open>ssh-ed25519\<close> and \<open>sha512\<close>, with
  signature bytes 1, 2, 3, encodes to \<open>e\<close> followed by the base64 text of these bytes,
  which is \<open>eAQID\<close>, and that token decodes to the same pair and bytes.
\<close>

theorem ed25519_scenario:
  assumes "len armored \<le> maxArmoredSize" and "pemDecode armored = Some block"
    and "Type block = ''SSH SIGNATURE''"
    and "parseSignatureBlob (Bytes block) = Some (Inr (''ssh-ed25519'', ''sha512'', sigData))"
    and "bytes sigData = [0x01, 0x02, 0x03]"
  shows "Encode pemDecode armored = Some (Inr (''e'' @ EncodeToString [0x01, 0x02, 0x03])) \<and>
         ''e'' @ EncodeToString [0x01, 0x02, 0x03] = ''eAQID'' \<and>
         Decode (''e'' @ EncodeToString [0x01, 0x02, 0x03]) =
           Some (Inr (\<lparr>Sig = ''ssh-ed25519'', Hash = ''sha512''\<rparr>, [0x01, 0x02, 0x03]))"
proof -
  have m: "(\<lparr>Sig = ''ssh-ed25519'', Hash = ''sha512''\<rparr>, CHR ''e'') \<in> set algsToPrefix"
    by (simp add: registry_defs)
  from Encode_parsed [where pemDecode = pemDecode and armored = armored, OF assms(1-4) m]
  have e: "Encode pemDecode armored = Some (Inr (''e'' @ EncodeToString [0x01, 0x02, 0x03]))"
    by (simp add: assms(5))
  have t: "''e'' @ EncodeToString [0x01, 0x02, 0x03] = ''eAQID''"
    by code_simp
  have "Decode (CHR ''e'' # EncodeToString [0x01, 0x02, 0x03]) =
          Some (Inr (\<lparr>Sig = ''ssh-ed25519'', Hash = ''sha512''\<rparr>, [0x01, 0x02, 0x03]))"
    by (rule Decode_encoded [OF m]) simp
  with e t show ?thesis by simp
qed

theorem ed25519_scenario_witness:
  "Encode (\<lambda>_. Some \<lparr>Type = ''SSH SIGNATURE'',
                      Bytes = Slice (sshsigBlob [1, 2] (bytes_of ''file'') [] (bytes_of ''sha512'')
                        (sshString (bytes_of ''ssh-ed25519'') @ sshString [1, 2, 3]))\<rparr>)
     (Slice [0x2D]) = Some (Inr (''e'' @ EncodeToString [0x01, 0x02, 0x03])) \<and>
   ''e'' @ EncodeToString [0x01, 0x02, 0x03] = ''eAQID'' \<and>
   Decode (''e'' @ EncodeToString [0x01, 0x02, 0x03]) =
     Some (Inr (\<lparr>Sig = ''ssh-ed25519'', Hash = ''sha512''\<rparr>, [0x01, 0x02, 0x03]))"
proof -
  let ?block = "\<lparr>Type = ''SSH SIGNATURE'',
                  Bytes = Slice (sshsigBlob [1, 2] (bytes_of ''file'') [] (bytes_of ''sha512'')
                        (sshString (bytes_of ''ssh-ed25519'') @ sshString [1, 2, 3]))\<rparr>"
  let ?pem = "\<lambda>_ :: slice. Some ?block"
  have 1: "len (Slice [0x2D]) \<le> maxArmoredSize" by (simp add: maxArmoredSize_def)
  have 2: "?pem (Slice [0x2D]) = Some ?block" by simp
  have 3: "Type ?block = ''SSH SIGNATURE''" by simp
  have 4: "parseSignatureBlob (Bytes ?block) =
             Some (Inr (''ssh-ed25519'', ''sha512'', Slice [1, 2, 3]))"
    by code_simp
  have 5: "bytes (Slice [1, 2, 3]) = [0x01, 0x02, 0x03]" by simp
  show ?thesis
    by (rule ed25519_scenario [where pemDecode = ?pem and armored = "Slice [0x2D]",
          OF 1 2 3 4 5])
qed

lemma decodeMap_newlines: "decodeMap (CHR 0x0A) = 0xFF" "decodeMap (CHR 0x0D) = 0xFF"
  by code_simp+

lemma DecodeString_single:
  "DecodeString [d] = (if d = CHR 0x0A \<or> d = CHR 0x0D then Inr [] else Inl 0)"
  by (auto simp: DecodeString_def Let_def decodeMap_newlines)

text \<open>
  Claim C8, as the code has it. \<open>Decode\<close> of a two-character string returns: the
  unknown-prefix error when the first byte is no table prefix; otherwise the decode
  error, except when the second byte is a line feed or a carriage return, which the
  base64 decoder skips: then it returns the pair with the empty signature.
\<close>

theorem Decode_two_chars:
  "Decode [c, d] =
     Some (if Sig (PrefixToAlgs c) = [] then Inl (UnknownPrefix c)
           else if d = CHR 0x0A \<or> d = CHR 0x0D then Inr (PrefixToAlgs c, [])
           else Inl (DecodeFailed 0))"
  by (simp add: Decode_def Let_def DecodeString_single)

text \<open>
  Claim C8 as stated fails: \<open>e\<close> followed by a line feed has length 2 and decodes
  without error.
\<close>

theorem newline_payload_counterexample:
  "Decode [CHR ''e'', CHR 0x0A] =
     Some (Inr (\<lparr>Sig = ''ssh-ed25519'', Hash = ''sha512''\<rparr>, []))"
  by code_simp

end
